theory Spec2Isabelle
  imports Complex_Main "HOL-Library.AList"
begin

section \<open>JavaScript values\<close>

text \<open>
  Plain data: \<open>undefined\<close>, \<open>null\<close>, booleans, numbers, strings, arrays and plain
  objects. An object is the list of its own enumerable properties in enumeration order,
  an array the list of its elements (no holes, no extra properties). A value of this
  type is a value given by its content, as a JSON text or a literal gives it; the types
  of \<open>types.ts\<close> are first modelled on such values. Objects that are shared and
  written to in place, as the store has them, live on the heap of the sections below.

  A number is the exact value of the double (a rational when finite). The code compares
  numbers and tests \<open>x % 1 === 0\<close>; both are exact on doubles, so no rounding enters.
\<close>

datatype jsnum = NaN | NegInf | Fin rat | PosInf

datatype jsval =
    Undefined
  | Null
  | Bool bool
  | Num jsnum
  | Str string
  | Arr "jsval list"
  | Obj "(string \<times> jsval) list"

text \<open>What the code throws: a string (\<open>throw 'Invalid path'\<close>), or an error object of
  the runtime. \<open>NotModelled\<close> is not thrown by anything: it marks a step whose result
  is not a value of this model (an array with a hole or with a property of its own, a
  member that an object inherits from its prototype, a change of a prototype), so that no
  theorem speaks about what follows it.\<close>

datatype js_error = Throw string | TypeError | SyntaxError | NotModelled

text \<open>\<open>a <= b\<close> and \<open>a >= b\<close>: false as soon as one side is NaN.\<close>

fun num_le :: "jsnum \<Rightarrow> jsnum \<Rightarrow> bool" where
  "num_le NaN _ = False"
| "num_le _ NaN = False"
| "num_le NegInf _ = True"
| "num_le _ PosInf = True"
| "num_le (Fin a) (Fin b) = (a \<le> b)"
| "num_le (Fin a) NegInf = False"
| "num_le PosInf (Fin b) = False"
| "num_le PosInf NegInf = False"

definition num_ge :: "jsnum \<Rightarrow> jsnum \<Rightarrow> bool" where
  "num_ge a b = num_le b a"

text \<open>\<open>x % 1\<close>: the remainder of the division truncated towards zero; NaN for an
  infinite or NaN operand.\<close>

definition trunc :: "rat \<Rightarrow> int" where
  "trunc r = (if 0 \<le> r then \<lfloor>r\<rfloor> else \<lceil>r\<rceil>)"

fun num_mod1 :: "jsnum \<Rightarrow> jsnum" where
  "num_mod1 (Fin r) = Fin (r - of_int (trunc r))"
| "num_mod1 _ = NaN"

fun typeof :: "jsval \<Rightarrow> string" where
  "typeof Undefined = ''undefined''"
| "typeof Null = ''object''"
| "typeof (Bool _) = ''boolean''"
| "typeof (Num _) = ''number''"
| "typeof (Str _) = ''string''"
| "typeof (Arr _) = ''object''"
| "typeof (Obj _) = ''object''"

fun truthy :: "jsval \<Rightarrow> bool" where
  "truthy Undefined = False"
| "truthy Null = False"
| "truthy (Bool b) = b"
| "truthy (Num n) = (n \<noteq> NaN \<and> n \<noteq> Fin 0)"
| "truthy (Str s) = (s \<noteq> [])"
| "truthy (Arr _) = True"
| "truthy (Obj _) = True"

fun isArray :: "jsval \<Rightarrow> bool" where
  "isArray (Arr _) = True"
| "isArray _ = False"

text \<open>The decimal name of an array index, as \<open>Object.keys\<close> lists it.\<close>

fun string_of_nat :: "nat \<Rightarrow> string" where
  "string_of_nat n =
     (if n < 10 then [char_of (48 + n)]
      else string_of_nat (n div 10) @ [char_of (48 + n mod 10)])"

declare string_of_nat.simps [simp del]

text \<open>A property name that is the decimal name of an integer. An object enumerates
  its properties of such names first, before those of other names.\<close>

definition is_index :: "string \<Rightarrow> bool" where
  "is_index key =
     (key \<noteq> [] \<and> list_all (\<lambda>c. 48 \<le> (of_char c :: nat) \<and> (of_char c :: nat) \<le> 57) key
      \<and> (key = ''0'' \<or> hd key \<noteq> CHR ''0''))"

text \<open>\<open>Object.keys(value)\<close> for a value that is an object.\<close>

fun Object_keys :: "jsval \<Rightarrow> string list" where
  "Object_keys (Obj kvs) = map fst kvs"
| "Object_keys (Arr xs) = map string_of_nat [0..<length xs]"
| "Object_keys _ = []"

text \<open>The names of the members of \<open>Object.prototype\<close>, which every plain object
  inherits: the \<open>in\<close> operator finds them on any object literal.\<close>

definition Object_prototype_names :: "string list" where
  "Object_prototype_names =
     [''constructor'', ''__defineGetter__'', ''__defineSetter__'', ''hasOwnProperty'',
      ''__lookupGetter__'', ''__lookupSetter__'', ''isPrototypeOf'',
      ''propertyIsEnumerable'', ''toString'', ''valueOf'', ''__proto__'',
      ''toLocaleString'']"

text \<open>The property read \<open>value[key]\<close> on an object, for its own properties: an array
  has its elements under their indices and its \<open>length\<close>, and a name that no property
  has reads as \<open>undefined\<close>. A name that the object does not have itself and inherits
  from its prototype reads as the inherited member, which is no value of this type; the
  theorems that depend on such a read exclude it (\<open>plain_type\<close> below).\<close>

fun js_get :: "jsval \<Rightarrow> string \<Rightarrow> jsval" where
  "js_get (Obj kvs) key = (case map_of kvs key of Some v \<Rightarrow> v | None \<Rightarrow> Undefined)"
| "js_get (Arr xs) key =
     (if key = ''length'' then Num (Fin (of_nat (length xs)))
      else (case find (\<lambda>i. string_of_nat i = key) [0..<length xs] of
              Some i \<Rightarrow> xs ! i
            | None \<Rightarrow> Undefined))"
| "js_get _ key = Undefined"

section \<open>Types (types.ts)\<close>

datatype ValidatingResult = Valid | Invalid (paths: "string list list")

fun valid :: "ValidatingResult \<Rightarrow> bool" where
  "valid Valid = True"
| "valid (Invalid _) = False"

text \<open>A Type object with the fields its constructor leaves on it. \<open>pattern\<close> is the
  RegExp as the predicate \<open>pattern.test\<close> computes, \<open>types\<close> of a Dictionary is
  \<open>None\<close> for \<open>null\<close> or \<open>undefined\<close>. The type variable is the type of the default
  value: a value by content here, a value of the heap for the types of a store.\<close>

datatype 'v Type =
    Any (defaultValue: 'v)
  | Boolean (defaultValue: 'v)
  | String (defaultValue: 'v) (minLength: jsnum) (maxLength: jsnum)
      (pattern: "(string \<Rightarrow> bool) option")
  | Number (defaultValue: 'v) (min_opt: jsnum) (max_opt: jsnum) (integer: bool)
  | Nullable (defaultValue: 'v) (null_opt: bool) (undefined_opt: bool)
  | Dictionary (defaultValue: 'v) (types: "(string \<times> 'v Type) list option")
  | List (defaultValue: 'v) (elem_type: "'v Type")
  | Union (defaultValue: 'v) (union_types: "'v Type list")

text \<open>\<open>_createValidatingResult(valid, paths)\<close>: \<open>paths || [[]]\<close> takes the given array
  whenever one is given (an array is truthy, also when empty).\<close>

definition createValidatingResult :: "bool \<Rightarrow> string list list option \<Rightarrow> ValidatingResult" where
  "createValidatingResult v ps =
     (if v then Valid else Invalid (case ps of Some p \<Rightarrow> p | None \<Rightarrow> [[]]))"

text \<open>\<open>key in types\<close>, on the object literal \<open>types\<close> that holds the field mapping:
  true for a field of the mapping and for every name the object inherits from
  \<open>Object.prototype\<close>.\<close>

definition key_in :: "string \<Rightarrow> (string \<times> 'a) list \<Rightarrow> bool" where
  "key_in key kvs = (map_of kvs key \<noteq> None \<or> key \<in> set Object_prototype_names)"

text \<open>The result object of \<open>validate\<close> used as a condition, as \<open>List.validate\<close> does in
  \<open>value.every(element => type.validate(element))\<close>: an object is truthy.\<close>

fun truthy_result :: "ValidatingResult \<Rightarrow> bool" where
  "truthy_result Valid = True"
| "truthy_result (Invalid _) = True"

text \<open>\<open>validate\<close> of each class. \<open>validate_entries\<close> is the loop over
  \<open>Object.entries(types)\<close> of \<open>Dictionary.validate\<close> (the paths it pushes),
  \<open>validate_every\<close> the \<open>every\<close> of \<open>List.validate\<close> and \<open>validate_some\<close> the
  \<open>some\<close> of \<open>Union.validate\<close>.\<close>

fun validate :: "'v Type \<Rightarrow> jsval \<Rightarrow> ValidatingResult"
  and validate_entries :: "(string \<times> 'v Type) list \<Rightarrow> jsval \<Rightarrow> string list list"
  and validate_every :: "'v Type \<Rightarrow> jsval list \<Rightarrow> bool"
  and validate_some :: "'v Type list \<Rightarrow> jsval \<Rightarrow> bool"
where
  "validate (Any d) v = Valid"
| "validate (Boolean d) v = createValidatingResult (typeof v = ''boolean'') None"
| "validate (String d mnl mxl pat) v =
     createValidatingResult
       (case v of
          Str s \<Rightarrow>
            num_ge (Fin (of_nat (length s))) mnl \<and>
            num_le (Fin (of_nat (length s))) mxl \<and>
            (case pat of None \<Rightarrow> True | Some test \<Rightarrow> test s)
        | _ \<Rightarrow> False)
       None"
| "validate (Number d mn mx int_only) v =
     createValidatingResult
       (case v of
          Num x \<Rightarrow> num_ge x mn \<and> num_le x mx \<and> (\<not> int_only \<or> num_mod1 x = Fin 0)
        | _ \<Rightarrow> False)
       None"
| "validate (Nullable d this_null this_undefined) v =
     createValidatingResult
       (if v = Null then this_null else (v = Bool this_undefined \<and> this_undefined))
       None"
| "validate (Dictionary d tys) v =
     (if truthy v \<and> typeof v = ''object'' then
        (case tys of
           Some ts \<Rightarrow>
             (let paths = map (\<lambda>key. [key]) (filter (\<lambda>key. \<not> key_in key ts) (Object_keys v))
                          @ validate_entries ts v
              in createValidatingResult (paths = []) (Some paths))
         | None \<Rightarrow> createValidatingResult True None)
      else createValidatingResult False None)"
| "validate (List d t) v =
     createValidatingResult
       (case v of Arr xs \<Rightarrow> validate_every t xs | _ \<Rightarrow> False)
       None"
| "validate (Union d ts) v = createValidatingResult (validate_some ts v) None"
| "validate_entries [] v = []"
| "validate_entries ((key, t) # rest) v =
     (case validate t (js_get v key) of
        Valid \<Rightarrow> []
      | Invalid ps \<Rightarrow> map (\<lambda>path. [key] @ path) ps)
     @ validate_entries rest v"
| "validate_every t [] = True"
| "validate_every t (element # rest) =
     (truthy_result (validate t element) \<and> validate_every t rest)"
| "validate_some [] v = False"
| "validate_some (option # rest) v = (valid (validate option v) \<or> validate_some rest v)"

text \<open>\<open>_validateDefaultValue(type)\<close>, at the end of a constructor: the constructed
  object, or the throw.\<close>

definition validateDefaultValue :: "jsval Type \<Rightarrow> js_error + jsval Type" where
  "validateDefaultValue t =
     (if \<not> valid (validate t (defaultValue t)) then Inl (Throw ''Invalid default value'')
      else Inr t)"

text \<open>\<open>_createDefaultDictionary(types)\<close>: \<open>result[key] = type.defaultValue\<close> for each
  entry, on an empty object.\<close>

fun createDefaultDictionary_loop ::
  "(string \<times> 'v) list \<Rightarrow> (string \<times> 'v Type) list \<Rightarrow> (string \<times> 'v) list" where
  "createDefaultDictionary_loop result [] = result"
| "createDefaultDictionary_loop result ((key, t) # rest) =
     createDefaultDictionary_loop (AList.update key (defaultValue t) result) rest"

definition createDefaultDictionary :: "(string \<times> jsval Type) list \<Rightarrow> jsval" where
  "createDefaultDictionary ts = Obj (createDefaultDictionary_loop [] ts)"

text \<open>The options objects of the constructors. A field is \<open>None\<close> when the options
  object does not have the key; \<open>Object.assign(this, defaults, options)\<close> then leaves the
  class's default in place.\<close>

datatype StringOptions = StringOptions
  (so_defaultValue: "jsval option") (so_minLength: "jsnum option")
  (so_maxLength: "jsnum option") (so_pattern: "(string \<Rightarrow> bool) option")

datatype NumberOptions = NumberOptions
  (no_defaultValue: "jsval option") (no_min: "jsnum option") (no_max: "jsnum option")
  (no_integer: "bool option")

datatype NullableOptions = NullableOptions
  (nu_defaultValue: "jsval option") (nu_null: "bool option") (nu_undefined: "bool option")

datatype ListOptions = ListOptions (lo_defaultValue: "jsval option") (lo_type: "jsval Type")

datatype UnionOptions = UnionOptions (uo_defaultValue: "jsval option") (uo_types: "jsval Type list")

definition or_default :: "'a option \<Rightarrow> 'a \<Rightarrow> 'a" where
  "or_default given dflt = (case given of Some x \<Rightarrow> x | None \<Rightarrow> dflt)"

definition new_Any :: "jsval option \<Rightarrow> jsval Type" where
  "new_Any d = Any (or_default d Undefined)"

text \<open>\<open>constructor(public defaultValue = false)\<close>: the parameter default applies to a
  missing argument and to \<open>undefined\<close>.\<close>

definition new_Boolean :: "jsval option \<Rightarrow> js_error + jsval Type" where
  "new_Boolean d =
     validateDefaultValue
       (Boolean (case d of None \<Rightarrow> Bool False | Some Undefined \<Rightarrow> Bool False | Some v \<Rightarrow> v))"

definition new_String :: "StringOptions option \<Rightarrow> js_error + jsval Type" where
  "new_String options =
     (let opts = or_default options (StringOptions None None None None) in
      validateDefaultValue
        (String (or_default (so_defaultValue opts) (Str []))
                (or_default (so_minLength opts) (Fin 0))
                (or_default (so_maxLength opts) PosInf)
                (so_pattern opts)))"

definition new_Number :: "NumberOptions option \<Rightarrow> js_error + jsval Type" where
  "new_Number options =
     (let opts = or_default options (NumberOptions None None None None) in
      validateDefaultValue
        (Number (or_default (no_defaultValue opts) (Num (Fin 0)))
                (or_default (no_min opts) NegInf)
                (or_default (no_max opts) PosInf)
                (or_default (no_integer opts) False)))"

definition new_Nullable :: "NullableOptions option \<Rightarrow> js_error + jsval Type" where
  "new_Nullable options =
     (let opts = or_default options (NullableOptions None None None);
          this_defaultValue = or_default (nu_defaultValue opts) Null;
          this_null = or_default (nu_null opts) True;
          this_undefined = or_default (nu_undefined opts) True
      in if \<not> (this_null \<or> this_undefined) then Inl (Throw ''Invalid options'')
         else if options \<noteq> None \<and> nu_defaultValue opts \<noteq> None then
           validateDefaultValue (Nullable this_defaultValue this_null this_undefined)
         else if \<not> this_null then Inr (Nullable Undefined this_null this_undefined)
         else Inr (Nullable this_defaultValue this_null this_undefined))"

definition new_Dictionary :: "(string \<times> jsval Type) list option \<Rightarrow> jsval Type" where
  "new_Dictionary tys =
     Dictionary (case tys of Some ts \<Rightarrow> createDefaultDictionary ts | None \<Rightarrow> Obj []) tys"

definition new_List :: "ListOptions option \<Rightarrow> js_error + jsval Type" where
  "new_List options =
     (case options of
        None \<Rightarrow> validateDefaultValue (List (Arr []) (new_Any None))
      | Some opts \<Rightarrow>
          validateDefaultValue (List (or_default (lo_defaultValue opts) (Arr [])) (lo_type opts)))"

text \<open>\<open>Union\<close>: without a \<open>defaultValue\<close> in the options the constructor reads
  \<open>this.types[0].defaultValue\<close>, a TypeError when there are no options or no member.\<close>

definition new_Union :: "UnionOptions option \<Rightarrow> js_error + jsval Type" where
  "new_Union options =
     (case options of
        None \<Rightarrow> Inl TypeError
      | Some opts \<Rightarrow>
          (case uo_defaultValue opts of
             Some d \<Rightarrow> validateDefaultValue (Union d (uo_types opts))
           | None \<Rightarrow>
               (case uo_types opts of
                  [] \<Rightarrow> Inl TypeError
                | t # _ \<Rightarrow> validateDefaultValue (Union (defaultValue t) (uo_types opts)))))"

text \<open>\<open>getTypeByPath(type, path)\<close> and \<open>_testTypePath(type, path)\<close>: both step through
  \<open>result.types[key]\<close> where \<open>result\<close> is a Dictionary with a field mapping and
  \<open>key in result.types\<close>. For a field of the mapping the step yields its Type. For a
  name that the mapping only inherits from \<open>Object.prototype\<close> it yields the inherited
  member (a function, or the prototype for \<open>__proto__\<close>), which is not a Type: no
  further step is taken from it, it has no \<open>validate\<close>, and its \<open>defaultValue\<close> reads
  as \<open>undefined\<close>.\<close>

definition INVALID_PATH :: string where
  "INVALID_PATH = ''Invalid path''"

datatype 'v member = Declared "'v Type" | Inherited string

fun getTypeByPath :: "'v Type \<Rightarrow> string list \<Rightarrow> js_error + 'v member" where
  "getTypeByPath result [] = Inr (Declared result)"
| "getTypeByPath result (key # rest) =
     (case result of
        Dictionary d (Some ts) \<Rightarrow>
          (case map_of ts key of
             Some t \<Rightarrow> getTypeByPath t rest
           | None \<Rightarrow>
               if key \<in> set Object_prototype_names \<and> rest = [] then Inr (Inherited key)
               else Inl (Throw INVALID_PATH))
      | _ \<Rightarrow> Inl (Throw INVALID_PATH))"

fun testTypePath :: "'v Type \<Rightarrow> string list \<Rightarrow> bool" where
  "testTypePath result [] = True"
| "testTypePath result (key # rest) =
     (case result of
        Dictionary d (Some ts) \<Rightarrow>
          (case map_of ts key of
             Some t \<Rightarrow> testTypePath t rest
           | None \<Rightarrow> key \<in> set Object_prototype_names \<and> rest = [])
      | _ \<Rightarrow> False)"

text \<open>The names of the members of \<open>Array.prototype\<close> (up to ECMAScript 2023; a runtime
  has some or all of them), and the names an object or array may inherit a member
  under. A schema is \<open>plain\<close> when no field of it, at any depth, has such a name: then
  every read of a field in \<open>validate\<close> is a read of an own property or of a name that
  no object has.\<close>

definition Array_prototype_names :: "string list" where
  "Array_prototype_names =
     [''at'', ''concat'', ''copyWithin'', ''entries'', ''every'', ''fill'', ''filter'',
      ''find'', ''findIndex'', ''findLast'', ''findLastIndex'', ''flat'', ''flatMap'',
      ''forEach'', ''includes'', ''indexOf'', ''join'', ''keys'', ''lastIndexOf'', ''map'',
      ''pop'', ''push'', ''reduce'', ''reduceRight'', ''reverse'', ''shift'', ''slice'',
      ''some'', ''sort'', ''splice'', ''toReversed'', ''toSorted'', ''toSpliced'',
      ''unshift'', ''values'', ''with'']"

definition inherited_names :: "string list" where
  "inherited_names = Object_prototype_names @ Array_prototype_names"

fun plain_type :: "'v Type \<Rightarrow> bool"
  and plain_fields :: "(string \<times> 'v Type) list \<Rightarrow> bool"
  and plain_types :: "'v Type list \<Rightarrow> bool"
where
  "plain_type (Dictionary d tys) = (case tys of Some ts \<Rightarrow> plain_fields ts | None \<Rightarrow> True)"
| "plain_type (List d t) = plain_type t"
| "plain_type (Union d ts) = plain_types ts"
| "plain_type (Any d) = True"
| "plain_type (Boolean d) = True"
| "plain_type (String d mnl mxl pat) = True"
| "plain_type (Number d mn mx int_only) = True"
| "plain_type (Nullable d this_null this_undefined) = True"
| "plain_fields [] = True"
| "plain_fields ((key, t) # rest) =
     (key \<notin> set inherited_names \<and> plain_type t \<and> plain_fields rest)"
| "plain_types [] = True"
| "plain_types (t # rest) = (plain_type t \<and> plain_types rest)"

section \<open>Paths (utils.ts)\<close>

text \<open>A selector is a string or an array of keys.\<close>

datatype selector = Selector string | Keys "string list"

text \<open>\<open>selector.split(pathSeparator)\<close>: the pieces between the occurrences of the
  separator, found from left to right; with the empty separator, the characters.\<close>

function split_from :: "string \<Rightarrow> string \<Rightarrow> string \<Rightarrow> string list" where
  "split_from sep piece [] = [rev piece]"
| "split_from sep piece (c # cs) =
     (if sep \<noteq> [] \<and> take (length sep) (c # cs) = sep
      then rev piece # split_from sep [] (drop (length sep) (c # cs))
      else split_from sep (c # piece) cs)"
  by pat_completeness auto
termination
  by (relation "measure (\<lambda>(sep, piece, s). length s)") auto

definition split :: "string \<Rightarrow> string \<Rightarrow> string list" where
  "split s sep = (if sep = [] then map (\<lambda>c. [c]) s else split_from sep [] s)"

fun parsePath :: "selector \<Rightarrow> string \<Rightarrow> string list" where
  "parsePath (Keys ks) pathSeparator = ks"
| "parsePath (Selector s) pathSeparator = split s pathSeparator"

section \<open>Values on a heap\<close>

text \<open>
  The store writes into its objects in place, hands them out by reference, and
  \<open>_clone\<close> tells objects apart by identity. So the program's objects live on a
  heap: an object or array at an address, a value referring to it by \<open>HRef\<close>; a
  function is a value of its own. The heap is a list and an address an index into it; a
  new object goes to the end. A reference to an address outside the heap cannot arise in
  a program; the model answers \<open>NotModelled\<close> to it.

  Every object here is a plain object and every array a plain array, with
  \<open>Object.prototype\<close> and \<open>Array.prototype\<close> as the language defines them. The two
  prototypes are not objects of the heap: a read of a name that an object inherits, and a
  write that would go to a prototype or change one, are \<open>NotModelled\<close>.
\<close>

type_synonym addr = nat

datatype hval = HUndefined | HNull | HBool bool | HNum jsnum | HStr string | HFun nat | HRef addr

datatype hobj = HObject "(string \<times> hval) list" | HArray "hval list"

type_synonym heap = "hobj list"

fun htypeof :: "hval \<Rightarrow> string" where
  "htypeof HUndefined = ''undefined''"
| "htypeof HNull = ''object''"
| "htypeof (HBool _) = ''boolean''"
| "htypeof (HNum _) = ''number''"
| "htypeof (HStr _) = ''string''"
| "htypeof (HFun _) = ''function''"
| "htypeof (HRef _) = ''object''"

fun htruthy :: "hval \<Rightarrow> bool" where
  "htruthy HUndefined = False"
| "htruthy HNull = False"
| "htruthy (HBool b) = b"
| "htruthy (HNum n) = (n \<noteq> NaN \<and> n \<noteq> Fin 0)"
| "htruthy (HStr s) = (s \<noteq> [])"
| "htruthy (HFun _) = True"
| "htruthy (HRef _) = True"

definition lookup :: "heap \<Rightarrow> addr \<Rightarrow> hobj option" where
  "lookup h a = (if a < length h then Some (h ! a) else None)"

text \<open>The test \<open>result && typeof result === 'object'\<close> of the walks and of
  \<open>Dictionary.validate\<close>.\<close>

definition indexable :: "hval \<Rightarrow> bool" where
  "indexable result = (htruthy result \<and> htypeof result = ''object'')"

text \<open>\<open>Object.keys(value)\<close> for a value that is an object.\<close>

fun own_keys :: "hobj \<Rightarrow> string list" where
  "own_keys (HObject kvs) = map fst kvs"
| "own_keys (HArray xs) = map string_of_nat [0..<length xs]"

definition hkeys :: "heap \<Rightarrow> hval \<Rightarrow> js_error + string list" where
  "hkeys h v =
     (case v of
        HRef a \<Rightarrow> (case lookup h a of Some ob \<Rightarrow> Inr (own_keys ob) | None \<Rightarrow> Inl NotModelled)
      | _ \<Rightarrow> Inl NotModelled)"

text \<open>The property read \<open>value[key]\<close> on an object. An own property reads as its
  value; an array has its elements under their indices and its \<open>length\<close>. A name that
  the object does not have reads as \<open>undefined\<close>, unless the object may inherit a
  member under it: that read is \<open>NotModelled\<close>. The code reads properties of objects
  only (behind \<open>indexable\<close>); a read on another value is \<open>NotModelled\<close> too.\<close>

fun hget :: "heap \<Rightarrow> hval \<Rightarrow> string \<Rightarrow> js_error + hval" where
  "hget h (HRef a) key =
     (case lookup h a of
        Some (HObject kvs) \<Rightarrow>
          (case map_of kvs key of
             Some v \<Rightarrow> Inr v
           | None \<Rightarrow> if key \<in> set Object_prototype_names then Inl NotModelled
                     else Inr HUndefined)
      | Some (HArray xs) \<Rightarrow>
          if key = ''length'' then Inr (HNum (Fin (of_nat (length xs))))
          else (case find (\<lambda>i. string_of_nat i = key) [0..<length xs] of
                  Some i \<Rightarrow> Inr (xs ! i)
                | None \<Rightarrow> if key \<in> set inherited_names then Inl NotModelled
                          else Inr HUndefined)
      | None \<Rightarrow> Inl NotModelled)"
| "hget h _ key = Inl NotModelled"

text \<open>The assignment \<open>object[key] = value\<close>, in place. On a plain object it sets the
  own property, a new one after the others. Two new names are \<open>NotModelled\<close>:
  \<open>__proto__\<close>, which goes to the setter of the prototype instead, and the name of an
  integer, whose property is enumerated before the others and not after them. On an
  array the assignment is modelled where the result is again an array without holes or
  extra properties: at an index up to the length. A primitive left of the assignment is
  a TypeError in a module (strict mode); the walks never get there.\<close>

fun hput :: "heap \<Rightarrow> hval \<Rightarrow> string \<Rightarrow> hval \<Rightarrow> js_error + heap" where
  "hput h (HRef a) key v =
     (case lookup h a of
        Some (HObject kvs) \<Rightarrow>
          if map_of kvs key = None \<and> (key = ''__proto__'' \<or> is_index key) then Inl NotModelled
          else Inr (h[a := HObject (AList.update key v kvs)])
      | Some (HArray xs) \<Rightarrow>
          (case find (\<lambda>i. string_of_nat i = key) [0..<Suc (length xs)] of
             Some i \<Rightarrow> Inr (h[a := HArray (if i < length xs then xs[i := v] else xs @ [v])])
           | None \<Rightarrow> Inl NotModelled)
      | None \<Rightarrow> Inl NotModelled)"
| "hput h _ key v = Inl TypeError"

text \<open>\<open>delete object[key]\<close>, in place. Deleting an element of an array leaves a hole
  (\<open>NotModelled\<close>), deleting its \<open>length\<close> is a TypeError in strict mode, deleting a
  name the object has no own property for does nothing.\<close>

fun hdelete :: "heap \<Rightarrow> hval \<Rightarrow> string \<Rightarrow> js_error + heap" where
  "hdelete h (HRef a) key =
     (case lookup h a of
        Some (HObject kvs) \<Rightarrow> Inr (h[a := HObject (AList.delete key kvs)])
      | Some (HArray xs) \<Rightarrow>
          if key = ''length'' then Inl TypeError
          else (case find (\<lambda>i. string_of_nat i = key) [0..<length xs] of
                  Some i \<Rightarrow> Inl NotModelled
                | None \<Rightarrow> Inr h)
      | None \<Rightarrow> Inl NotModelled)"
| "hdelete h _ key = Inl TypeError"

text \<open>\<open>validate\<close> of each class on a value of the heap, as \<open>validate\<close> above is on a
  value given by its content; the result is \<open>Inl NotModelled\<close> when a read is.\<close>

fun validate_h :: "heap \<Rightarrow> 'v Type \<Rightarrow> hval \<Rightarrow> js_error + ValidatingResult"
  and validate_h_entries ::
    "heap \<Rightarrow> (string \<times> 'v Type) list \<Rightarrow> hval \<Rightarrow> js_error + string list list"
  and validate_h_every :: "heap \<Rightarrow> 'v Type \<Rightarrow> hval list \<Rightarrow> js_error + bool"
  and validate_h_some :: "heap \<Rightarrow> 'v Type list \<Rightarrow> hval \<Rightarrow> js_error + bool"
where
  "validate_h h (Any d) v = Inr Valid"
| "validate_h h (Boolean d) v = Inr (createValidatingResult (htypeof v = ''boolean'') None)"
| "validate_h h (String d mnl mxl pat) v =
     Inr (createValidatingResult
       (case v of
          HStr s \<Rightarrow>
            num_ge (Fin (of_nat (length s))) mnl \<and>
            num_le (Fin (of_nat (length s))) mxl \<and>
            (case pat of None \<Rightarrow> True | Some test \<Rightarrow> test s)
        | _ \<Rightarrow> False)
       None)"
| "validate_h h (Number d mn mx int_only) v =
     Inr (createValidatingResult
       (case v of
          HNum x \<Rightarrow> num_ge x mn \<and> num_le x mx \<and> (\<not> int_only \<or> num_mod1 x = Fin 0)
        | _ \<Rightarrow> False)
       None)"
| "validate_h h (Nullable d this_null this_undefined) v =
     Inr (createValidatingResult
       (if v = HNull then this_null else (v = HBool this_undefined \<and> this_undefined))
       None)"
| "validate_h h (Dictionary d tys) v =
     (if indexable v then
        (case tys of
           Some ts \<Rightarrow>
             (case hkeys h v of
                Inl e \<Rightarrow> Inl e
              | Inr keys \<Rightarrow>
                  (case validate_h_entries h ts v of
                     Inl e \<Rightarrow> Inl e
                   | Inr sub \<Rightarrow>
                       (let paths = map (\<lambda>key. [key]) (filter (\<lambda>key. \<not> key_in key ts) keys)
                                    @ sub
                        in Inr (createValidatingResult (paths = []) (Some paths)))))
         | None \<Rightarrow> Inr (createValidatingResult True None))
      else Inr (createValidatingResult False None))"
| "validate_h h (List d t) v =
     (case v of
        HRef a \<Rightarrow>
          (case lookup h a of
             Some (HArray xs) \<Rightarrow>
               (case validate_h_every h t xs of
                  Inl e \<Rightarrow> Inl e
                | Inr b \<Rightarrow> Inr (createValidatingResult b None))
           | Some (HObject kvs) \<Rightarrow> Inr (createValidatingResult False None)
           | None \<Rightarrow> Inl NotModelled)
      | _ \<Rightarrow> Inr (createValidatingResult False None))"
| "validate_h h (Union d ts) v =
     (case validate_h_some h ts v of
        Inl e \<Rightarrow> Inl e
      | Inr b \<Rightarrow> Inr (createValidatingResult b None))"
| "validate_h_entries h [] v = Inr []"
| "validate_h_entries h ((key, t) # rest) v =
     (case hget h v key of
        Inl e \<Rightarrow> Inl e
      | Inr field \<Rightarrow>
          (case validate_h h t field of
             Inl e \<Rightarrow> Inl e
           | Inr r \<Rightarrow>
               (case validate_h_entries h rest v of
                  Inl e \<Rightarrow> Inl e
                | Inr more \<Rightarrow>
                    Inr ((case r of
                            Valid \<Rightarrow> []
                          | Invalid ps \<Rightarrow> map (\<lambda>path. [key] @ path) ps)
                         @ more))))"
| "validate_h_every h t [] = Inr True"
| "validate_h_every h t (element # rest) =
     (case validate_h h t element of
        Inl e \<Rightarrow> Inl e
      | Inr r \<Rightarrow> if truthy_result r then validate_h_every h t rest else Inr False)"
| "validate_h_some h [] v = Inr False"
| "validate_h_some h (option # rest) v =
     (case validate_h h option v of
        Inl e \<Rightarrow> Inl e
      | Inr r \<Rightarrow> if valid r then Inr True else validate_h_some h rest v)"

text \<open>\<open>repr h v c\<close>: the value \<open>v\<close> of the heap \<open>h\<close> has the content \<open>c\<close>. An
  array has the contents of its elements, an object the contents of its properties under
  their names, in order.\<close>

fun repr :: "heap \<Rightarrow> hval \<Rightarrow> jsval \<Rightarrow> bool"
  and repr_list :: "heap \<Rightarrow> hval list \<Rightarrow> jsval list \<Rightarrow> bool"
  and repr_entries :: "heap \<Rightarrow> (string \<times> hval) list \<Rightarrow> (string \<times> jsval) list \<Rightarrow> bool"
where
  "repr h v Undefined = (v = HUndefined)"
| "repr h v Null = (v = HNull)"
| "repr h v (Bool b) = (v = HBool b)"
| "repr h v (Num x) = (v = HNum x)"
| "repr h v (Str s) = (v = HStr s)"
| "repr h v (Arr xs) =
     (case v of
        HRef a \<Rightarrow> (case lookup h a of Some (HArray ws) \<Rightarrow> repr_list h ws xs | _ \<Rightarrow> False)
      | _ \<Rightarrow> False)"
| "repr h v (Obj kvs) =
     (case v of
        HRef a \<Rightarrow> (case lookup h a of Some (HObject es) \<Rightarrow> repr_entries h es kvs | _ \<Rightarrow> False)
      | _ \<Rightarrow> False)"
| "repr_list h ws [] = (ws = [])"
| "repr_list h ws (x # xs) =
     (case ws of w # rest \<Rightarrow> repr h w x \<and> repr_list h rest xs | [] \<Rightarrow> False)"
| "repr_entries h es [] = (es = [])"
| "repr_entries h es ((key, x) # kvs) =
     (case es of
        (k, w) # rest \<Rightarrow> k = key \<and> repr h w x \<and> repr_entries h rest kvs
      | [] \<Rightarrow> False)"

text \<open>\<open>_getByPath\<close>, \<open>_setByPath\<close> and \<open>_deleteByPath\<close>: the walk from
  \<open>object\<close> along the keys of the path. \<open>_setByPath\<close> and \<open>_deleteByPath\<close>
  change the object the walk ends in, and return the heap after the change.\<close>

fun getByPath :: "heap \<Rightarrow> hval \<Rightarrow> string list \<Rightarrow> js_error + hval" where
  "getByPath h result [] = Inr result"
| "getByPath h result (key # rest) =
     (if indexable result then
        (case hget h result key of
           Inl e \<Rightarrow> Inl e
         | Inr next_result \<Rightarrow> getByPath h next_result rest)
      else Inl (Throw INVALID_PATH))"

fun setByPath :: "heap \<Rightarrow> hval \<Rightarrow> string list \<Rightarrow> hval \<Rightarrow> js_error + heap" where
  "setByPath h result [] v = Inr h"
| "setByPath h result [key] v =
     (if indexable result then hput h result key v else Inl (Throw INVALID_PATH))"
| "setByPath h result (key # rest) v =
     (if indexable result then
        (case hget h result key of
           Inl e \<Rightarrow> Inl e
         | Inr next_result \<Rightarrow> setByPath h next_result rest v)
      else Inl (Throw INVALID_PATH))"

fun deleteByPath :: "heap \<Rightarrow> hval \<Rightarrow> string list \<Rightarrow> js_error + heap" where
  "deleteByPath h result [] = Inr h"
| "deleteByPath h result [key] =
     (if \<not> indexable result then Inl (Throw INVALID_PATH) else hdelete h result key)"
| "deleteByPath h result (key # rest) =
     (if \<not> indexable result then Inl (Throw INVALID_PATH)
      else (case hget h result key of
              Inl e \<Rightarrow> Inl e
            | Inr next_result \<Rightarrow> deleteByPath h next_result rest))"

subsection \<open>_clone\<close>

text \<open>
  \<open>_clone(source, refs)\<close>. The objects a call creates are collected in \<open>out\<close>, at the
  addresses after those of the heap \<open>h\<close> the call started with; the traversal reads
  \<open>h\<close> only, since no new object is ever stored into an old one.

  \<open>clone_loop\<close> is the \<open>forEach\<close> over \<open>Object.entries(source)\<close>, with the properties
  of \<open>result\<close> so far. \<open>refs\<close> is the Set of the values seen, the list of what was added.
\<close>

fun hstring_entries :: "nat \<Rightarrow> string \<Rightarrow> (string \<times> hval) list" where
  "hstring_entries i [] = []"
| "hstring_entries i (c # cs) = (string_of_nat i, HStr [c]) # hstring_entries (Suc i) cs"

definition unvisited :: "heap \<Rightarrow> hval list \<Rightarrow> nat" where
  "unvisited h refs = card {a. a < length h \<and> HRef a \<notin> set refs}"

function clone_h ::
    "heap \<Rightarrow> hval list \<Rightarrow> hobj list \<Rightarrow> hval \<Rightarrow> js_error + (hval \<times> hobj list \<times> hval list)"
  and clone_loop ::
    "heap \<Rightarrow> hval list \<Rightarrow> hobj list \<Rightarrow> (string \<times> hval) list \<Rightarrow> (string \<times> hval) list
       \<Rightarrow> js_error + ((string \<times> hval) list \<times> hobj list \<times> hval list)"
where
  "clone_h h refs out source =
     (case source of
        HRef a \<Rightarrow>
          (case lookup h a of
             None \<Rightarrow> Inl NotModelled
           | Some (HArray xs) \<Rightarrow> Inr (HRef (length h + length out), out @ [HArray xs], refs)
           | Some (HObject kvs) \<Rightarrow>
               (case clone_loop h refs (out @ [HObject []]) [] kvs of
                  Inl e \<Rightarrow> Inl e
                | Inr (result, out', refs') \<Rightarrow>
                    Inr (HRef (length h + length out), out'[length out := HObject result], refs')))
      | HNull \<Rightarrow> Inl TypeError
      | HUndefined \<Rightarrow> Inl TypeError
      | HStr s \<Rightarrow> Inr (HRef (length h + length out), out @ [HObject (hstring_entries 0 s)], refs)
      | _ \<Rightarrow> Inr (HRef (length h + length out), out @ [HObject []], refs))"
| "clone_loop h refs out result [] = Inr (result, out, refs)"
| "clone_loop h refs out result ((key, v) # rest) =
     (if htypeof v = ''object'' then
        (if v \<noteq> HNull \<and> v \<in> set refs then Inl (Throw ''Circular reference'')
         else (case clone_h h (v # refs) out v of
                 Inl e \<Rightarrow> Inl e
               | Inr (c, out', refs') \<Rightarrow> clone_loop h refs' out' (AList.update key c result) rest))
      else if htypeof v \<noteq> ''function'' then clone_loop h refs out (AList.update key v result) rest
      else clone_loop h refs out result rest)"
  by pat_completeness auto

lemma clone_refs_mono:
  "clone_h_clone_loop_dom (Inl (h, refs, out, source)) \<Longrightarrow>
     clone_h h refs out source = Inr (c, out', refs') \<Longrightarrow> set refs \<subseteq> set refs'"
  "clone_h_clone_loop_dom (Inr (h, refs, out, result, entries)) \<Longrightarrow>
     clone_loop h refs out result entries = Inr (res, out', refs') \<Longrightarrow> set refs \<subseteq> set refs'"
proof (induct h refs out source and h refs out result entries
       arbitrary: c out' refs' and res out' refs' rule: clone_h_clone_loop.pinduct)
  case (1 h refs out source)
  show ?case
  proof (cases source)
    case (HRef a)
    show ?thesis
    proof (cases "lookup h a")
      case None
      with HRef 1(1,3) show ?thesis by (simp add: clone_h.psimps)
    next
      case (Some ob)
      show ?thesis
      proof (cases ob)
        case (HArray xs)
        with HRef Some 1(1,3) show ?thesis by (simp add: clone_h.psimps)
      next
        case (HObject kvs)
        with HRef Some 1(1,3) obtain result o1 where
          "clone_loop h refs (out @ [HObject []]) [] kvs = Inr (result, o1, refs')"
          by (auto simp: clone_h.psimps split: sum.splits)
        with 1(2)[OF HRef Some HObject] show ?thesis by blast
      qed
    qed
  qed (use 1(1,3) in \<open>auto simp: clone_h.psimps\<close>)
next
  case (2 h refs out result)
  then show ?case by (simp add: clone_loop.psimps)
next
  case (3 h refs out result key v rest)
  show ?case
  proof (cases "htypeof v = ''object''")
    case True
    note obj = this
    show ?thesis
    proof (cases "v \<noteq> HNull \<and> v \<in> set refs")
      case True
      with obj "3.hyps"(1) "3.prems" show ?thesis by (simp add: clone_loop.psimps)
    next
      case False
      with obj "3.hyps"(1) "3.prems" obtain c1 o1 r1 where
        a: "clone_h h (v # refs) out v = Inr (c1, o1, r1)" and
        b: "clone_loop h r1 o1 (AList.update key c1 result) rest = Inr (res, out', refs')"
        by (auto simp: clone_loop.psimps split: sum.splits)
      from "3.hyps"(2)[OF obj False a] have "set (v # refs) \<subseteq> set r1" .
      moreover from "3.hyps"(3)[OF obj False a refl refl b] have "set r1 \<subseteq> set refs'" by simp
      ultimately show ?thesis by auto
    qed
  next
    case False
    with "3.hyps" "3.prems" show ?thesis
      by (auto simp: clone_loop.psimps split: if_splits)
  qed
qed

termination clone_h
proof (relation "inv_image (less_than <*lex*> less_than <*lex*> less_than)
    (\<lambda>x. case x of
       Inl (h, refs, out, source) \<Rightarrow>
         (case source of
            HRef a \<Rightarrow> if a < length h then (unvisited h refs, 1::nat, 0::nat) else (0, 0, 0)
          | _ \<Rightarrow> (0, 0, 0))
     | Inr (h, refs, out, result, entries) \<Rightarrow> (unvisited h refs, 0, length entries))", goal_cases)
  case 1
  show ?case by (intro wf_inv_image wf_lex_prod wf_less_than)
next
  case (2 h refs out source a kvs)
  then show ?case by (auto simp: lookup_def split: if_splits)
next
  case (3 h refs out result key v rest)
  have "v = HNull \<or> (\<exists>b. v = HRef b)" using 3(1) by (cases v) auto
  then show ?case
  proof
    assume "v = HNull" then show ?thesis by auto
  next
    assume "\<exists>b. v = HRef b"
    then obtain b where v: "v = HRef b" by blast
    show ?thesis
    proof (cases "b < length h")
      case True
      have nin: "HRef b \<notin> set refs" using 3(2) v by simp
      have "unvisited h (HRef b # refs) < unvisited h refs"
        unfolding unvisited_def
        by (rule psubset_card_mono) (use True nin in auto)
      then show ?thesis using v True by simp
    next
      case False
      then show ?thesis using v by auto
    qed
  qed
next
  case (4 h refs out result key v rest x c y out' refs')
  then have "set (v # refs) \<subseteq> set refs'" using clone_refs_mono(1) by blast
  then have "unvisited h refs' \<le> unvisited h refs"
    unfolding unvisited_def
    by (intro card_mono) auto
  then show ?case by auto
next
  case 5 then show ?case by simp
next
  case 6 then show ?case by simp
qed

definition clone_top :: "heap \<Rightarrow> hval \<Rightarrow> js_error + (hval \<times> heap)" where
  "clone_top h source =
     (case clone_h h [] [] source of
        Inl e \<Rightarrow> Inl e
      | Inr (v, out, refs) \<Rightarrow> Inr (v, h @ out))"

declare clone_h.simps [simp del]

text \<open>
  What the claim about \<open>_clone\<close> speaks of. \<open>resolve h v path\<close> follows property names
  from \<open>v\<close> through plain objects (an array is not entered, as \<open>_clone\<close> does not enter
  one). A value is \<^emph>\<open>met\<close> at a non-empty path from the cloned value; \<open>met_twice\<close>
  says that one object or array is met at two different paths, \<open>meets_null\<close> that
  \<open>null\<close> is met. A heap is well formed when no object has a property name twice and
  every reference in it points into the heap.
\<close>

fun resolve :: "heap \<Rightarrow> hval \<Rightarrow> string list \<Rightarrow> hval option" where
  "resolve h v [] = Some v"
| "resolve h v (key # rest) =
     (case v of
        HRef a \<Rightarrow>
          (case lookup h a of
             Some (HObject kvs) \<Rightarrow>
               (case map_of kvs key of
                  Some w \<Rightarrow> resolve h w rest
                | None \<Rightarrow> None)
           | _ \<Rightarrow> None)
      | _ \<Rightarrow> None)"

definition met_twice :: "heap \<Rightarrow> hval \<Rightarrow> bool" where
  "met_twice h v =
     (\<exists>p q b. p \<noteq> q \<and> p \<noteq> [] \<and> q \<noteq> []
        \<and> resolve h v p = Some (HRef b) \<and> resolve h v q = Some (HRef b))"

definition meets_null :: "heap \<Rightarrow> hval \<Rightarrow> bool" where
  "meets_null h v = (\<exists>p. p \<noteq> [] \<and> resolve h v p = Some HNull)"

fun ref_ok :: "heap \<Rightarrow> hval \<Rightarrow> bool" where
  "ref_ok h (HRef a) = (a < length h)"
| "ref_ok h _ = True"

fun obj_ok :: "heap \<Rightarrow> hobj \<Rightarrow> bool" where
  "obj_ok h (HObject kvs) = (distinct (map fst kvs) \<and> list_all (ref_ok h) (map snd kvs))"
| "obj_ok h (HArray xs) = list_all (ref_ok h) xs"

definition wf_heap :: "heap \<Rightarrow> bool" where
  "wf_heap h = list_all (obj_ok h) h"


text \<open>
  The same notions for the proofs about the loop, which walks a list of entries with the
  set \<open>refs\<close> of what it has seen: the references met from the entries (\<open>entry_refs\<close>)
  or strictly below a value (\<open>refs_below\<close>), or from a value itself (\<open>all_refs\<close>);
  whether a null is met or a reference twice; and the condition under which the walk
  returns (\<open>good_h\<close>, \<open>good_es\<close>): no null, nothing met twice, nothing met that is in
  \<open>refs\<close> already.
\<close>

definition refs_below :: "heap \<Rightarrow> hval \<Rightarrow> hval set" where
  "refs_below h v = {w. \<exists>b p. w = HRef b \<and> p \<noteq> [] \<and> resolve h v p = Some (HRef b)}"

definition entry_refs :: "heap \<Rightarrow> (string \<times> hval) list \<Rightarrow> hval set" where
  "entry_refs h es = {w. \<exists>b k u p. w = HRef b \<and> (k, u) \<in> set es \<and> resolve h u p = Some (HRef b)}"

definition entries_null :: "heap \<Rightarrow> (string \<times> hval) list \<Rightarrow> bool" where
  "entries_null h es = (\<exists>k u p. (k, u) \<in> set es \<and> resolve h u p = Some HNull)"

definition entries_twice :: "heap \<Rightarrow> (string \<times> hval) list \<Rightarrow> bool" where
  "entries_twice h es =
     (\<exists>k u p k' u' q b. (k, u) \<in> set es \<and> (k', u') \<in> set es \<and> (k, p) \<noteq> (k', q)
        \<and> resolve h u p = Some (HRef b) \<and> resolve h u' q = Some (HRef b))"

definition all_refs :: "heap \<Rightarrow> hval \<Rightarrow> hval set" where
  "all_refs h u = {w. \<exists>b p. w = HRef b \<and> resolve h u p = Some (HRef b)}"

definition twice_from :: "heap \<Rightarrow> hval \<Rightarrow> bool" where
  "twice_from h u =
     (\<exists>p q b. p \<noteq> q \<and> resolve h u p = Some (HRef b) \<and> resolve h u q = Some (HRef b))"

definition null_from :: "heap \<Rightarrow> hval \<Rightarrow> bool" where
  "null_from h u = (\<exists>p. resolve h u p = Some HNull)"

definition good_h :: "heap \<Rightarrow> hval list \<Rightarrow> hval \<Rightarrow> bool" where
  "good_h h refs v = (\<not> meets_null h v \<and> \<not> met_twice h v \<and> refs_below h v \<inter> set refs = {})"

definition good_es :: "heap \<Rightarrow> hval list \<Rightarrow> (string \<times> hval) list \<Rightarrow> bool" where
  "good_es h refs es =
     (\<not> entries_null h es \<and> \<not> entries_twice h es \<and> entry_refs h es \<inter> set refs = {})"

section \<open>Store (Store.ts)\<close>

text \<open>The calls the store makes to the two callbacks of its options, in order.\<close>

datatype callback =
    OnInvalid "string list list"
  | OnConflict "string option" "string option"

text \<open>
  The fields of a Store, and with them the heap \<open>s_heap\<close> of the program's objects:
  those that the value, the default value and the default values of the types refer to.
  \<open>s_value\<close>, \<open>s_oldSource\<close> and \<open>s_saveTimer\<close> are the private \<open>_value\<close>,
  \<open>_oldSource\<close> and \<open>_saveTimer\<close>; \<open>s_defaultValue\<close> and \<open>s_type\<close> are
  \<open>defaultValue\<close> and \<open>type\<close>. A source is a string or \<open>null\<close> (\<open>None\<close>).
  \<open>storage\<close> is the content of the backing medium: \<open>getItem\<close> reads a key,
  \<open>setItem\<close> writes one. \<open>onInvalid\<close> and \<open>onConflict\<close> say whether the callback is
  configured; a call of one is recorded in \<open>calls\<close>. \<open>s_saveTimer\<close> says whether a
  timeout for \<open>save\<close> is pending.
\<close>

record Store =
  name :: string
  s_heap :: heap
  s_value :: hval
  s_oldSource :: "string option"
  s_defaultValue :: hval
  s_type :: "hval Type option"
  delay :: jsnum
  storage :: "string \<Rightarrow> string option"
  lazyLoad :: bool
  strictLoad :: bool
  secure :: bool
  autoFix :: bool
  onInvalid :: bool
  onConflict :: bool
  pathSeparator :: string
  s_saveTimer :: bool
  calls :: "callback list"

text \<open>\<open>array.join(separator)\<close> on strings.\<close>

fun join :: "string list \<Rightarrow> string \<Rightarrow> string" where
  "join [] sep = []"
| "join [x] sep = x"
| "join (x # xs) sep = x @ sep @ join xs sep"

text \<open>\<open>_getDefaultValue()\<close>: the default value, or its clone when it is an object; the
  clone is a new object of the heap.\<close>

definition getDefaultValue :: "Store \<Rightarrow> js_error + (hval \<times> heap)" where
  "getDefaultValue st =
     (if indexable (s_defaultValue st)
      then clone_top (s_heap st) (s_defaultValue st)
      else Inr (s_defaultValue st, s_heap st))"

text \<open>The message \<open>_invalid\<close> throws.\<close>

definition invalid_message :: "Store \<Rightarrow> string list list \<Rightarrow> string" where
  "invalid_message st ps =
     ''Invalid value at paths: '' @
       (let joined = join (map (\<lambda>path. join path (pathSeparator st)) ps) '', ''
        in if joined = [] then ''(root)'' else joined)"

definition invalid :: "Store \<Rightarrow> string list list \<Rightarrow> js_error + Store" where
  "invalid st ps =
     (if onInvalid st then Inr (st\<lparr>calls := calls st @ [OnInvalid ps]\<rparr>)
      else if \<not> autoFix st then Inl (Throw (invalid_message st ps))
      else Inr st)"

definition conflict :: "Store \<Rightarrow> string option \<Rightarrow> string option \<Rightarrow> js_error + Store" where
  "conflict st newSource oldSource =
     (if onConflict st then Inr (st\<lparr>calls := calls st @ [OnConflict newSource oldSource]\<rparr>)
      else Inl (Throw ''Sources conflicted''))"

definition checkConflict :: "Store \<Rightarrow> js_error + (bool \<times> Store)" where
  "checkConflict st =
     (let newSource = storage st (name st) in
      if newSource \<noteq> s_oldSource st then
        (case conflict st newSource (s_oldSource st) of
           Inl e \<Rightarrow> Inl e
         | Inr st' \<Rightarrow> Inr (True, st'))
      else Inr (False, st))"

text \<open>
  The public methods return their result or throw, and leave a store behind in both
  cases: the pair of the outcome (\<open>Inl\<close> what was thrown, \<open>Inr\<close> what was returned) and
  the store after the call, with the heap as the call left it. (When \<open>_clone\<close> throws,
  the objects it had created, which nothing refers to, are not kept.)

  \<open>save()\<close>. \<open>JSON.stringify\<close> is the runtime's, a parameter here, with the signature
  its TypeScript declaration gives it: a string for every value (a value of the heap,
  which it reads).
\<close>

definition save :: "(heap \<Rightarrow> hval \<Rightarrow> string) \<Rightarrow> Store \<Rightarrow> (js_error + bool) \<times> Store" where
  "save JSON_stringify st =
     (case (if secure st then checkConflict st else Inr (False, st)) of
        Inl e \<Rightarrow> (Inl e, st)
      | Inr (conflicted, st') \<Rightarrow>
          if conflicted then (Inr False, st')
          else
            (let written = JSON_stringify (s_heap st') (s_value st') in
             (Inr True, st'\<lparr>s_oldSource := Some written,
                            storage := (storage st')(name st' \<mapsto> written)\<rparr>)))"

text \<open>\<open>_save()\<close>: with a delay, the pending timeout is replaced by a new one; without,
  \<open>save()\<close> runs at once and its result is dropped. The outcome is what was thrown, if
  anything.\<close>

definition save_later ::
  "(heap \<Rightarrow> hval \<Rightarrow> string) \<Rightarrow> Store \<Rightarrow> js_error option \<times> Store" where
  "save_later JSON_stringify st =
     (if truthy (Num (delay st)) then (None, st\<lparr>s_saveTimer := True\<rparr>)
      else (case save JSON_stringify st of
              (Inl e, st') \<Rightarrow> (Some e, st')
            | (Inr saved, st') \<Rightarrow> (None, st')))"

text \<open>What \<open>getTypeByPath(type, path).defaultValue\<close> reads.\<close>

fun member_defaultValue :: "hval member \<Rightarrow> hval" where
  "member_defaultValue (Declared t) = defaultValue t"
| "member_defaultValue (Inherited key) = HUndefined"

text \<open>The repair loop of \<open>load\<close> over the failing paths, on the value \<open>v\<close>: each path
  is set to the default value of its type (the default itself, not a copy) or deleted,
  in place. The result is what the loop threw, if anything, and the heap it left.\<close>

fun load_fix ::
  "hval Type \<Rightarrow> string list list \<Rightarrow> heap \<Rightarrow> hval \<Rightarrow> js_error option \<times> heap" where
  "load_fix t [] h v = (None, h)"
| "load_fix t (path # rest) h v =
     (case (if testTypePath t path then
              (case getTypeByPath t path of
                 Inl e \<Rightarrow> Inl e
               | Inr m \<Rightarrow> setByPath h v path (member_defaultValue m))
            else deleteByPath h v path) of
        Inl e \<Rightarrow> (Some e, h)
      | Inr h' \<Rightarrow> load_fix t rest h' v)"

text \<open>The end of \<open>load\<close>, from \<open>this._oldSource = source\<close> on; \<open>was_invalid\<close> is
  \<open>validatingResult && !validatingResult.valid\<close>.\<close>

definition load_commit ::
  "(heap \<Rightarrow> hval \<Rightarrow> string) \<Rightarrow> Store \<Rightarrow> string option \<Rightarrow> hval \<Rightarrow> bool
     \<Rightarrow> (js_error + bool) \<times> Store" where
  "load_commit JSON_stringify st source v was_invalid =
     (let st' = st\<lparr>s_oldSource := source, s_value := v\<rparr> in
      if source = None \<or> was_invalid then
        (case save_later JSON_stringify st' of
           (Some e, st'') \<Rightarrow> (Inl e, st'')
         | (None, st'') \<Rightarrow> (Inr True, st''))
      else (Inr True, st'))"

text \<open>\<open>load(source?)\<close>. The argument is \<open>None\<close> when it is left out or \<open>undefined\<close>,
  \<open>Some None\<close> for \<open>null\<close>. \<open>JSON.parse\<close> is the runtime's, a parameter: from the text
  and the heap, the parsed value and the heap with its new objects, or \<open>None\<close> where it
  throws a SyntaxError. The default value is cloned before anything else, whether the
  clone is used or not. The two branches of the repair that the code guards by \<open>type\<close>
  being absent lie under \<open>validatingResult && !validatingResult.valid\<close>, which needs a
  \<open>type\<close>: no run reaches them, and the model has no case for them.\<close>

definition load ::
  "(string \<Rightarrow> heap \<Rightarrow> (hval \<times> heap) option) \<Rightarrow> (heap \<Rightarrow> hval \<Rightarrow> string) \<Rightarrow> Store
     \<Rightarrow> string option option \<Rightarrow> (js_error + bool) \<times> Store" where
  "load JSON_parse JSON_stringify st source_arg =
     (let source = (case source_arg of None \<Rightarrow> storage st (name st) | Some s \<Rightarrow> s) in
      case getDefaultValue st of
        Inl e \<Rightarrow> (Inl e, st)
      | Inr (dflt, h1) \<Rightarrow>
          (case (case source of
                   None \<Rightarrow> Some (dflt, h1)
                 | Some src \<Rightarrow> JSON_parse src h1) of
             None \<Rightarrow> (Inl SyntaxError, st\<lparr>s_heap := h1\<rparr>)
           | Some (v, h2) \<Rightarrow>
               (let st0 = st\<lparr>s_heap := h2\<rparr> in
                case s_type st of
                  None \<Rightarrow> load_commit JSON_stringify st0 source v False
                | Some t \<Rightarrow>
                    (case validate_h h2 t v of
                       Inl e \<Rightarrow> (Inl e, st0)
                     | Inr Valid \<Rightarrow> load_commit JSON_stringify st0 source v False
                     | Inr (Invalid ps) \<Rightarrow>
                         (case invalid st0 ps of
                            Inl e \<Rightarrow> (Inl e, st0)
                          | Inr st1 \<Rightarrow>
                              if autoFix st1 then
                                (case ps of
                                   [] \<Rightarrow> (Inl TypeError, st1)
                                 | p0 # _ \<Rightarrow>
                                     if p0 \<noteq> [] then
                                       (case load_fix t ps h2 v of
                                          (Some e, h3) \<Rightarrow> (Inl e, st1\<lparr>s_heap := h3\<rparr>)
                                        | (None, h3) \<Rightarrow>
                                            load_commit JSON_stringify (st1\<lparr>s_heap := h3\<rparr>)
                                              source v True)
                                     else load_commit JSON_stringify st1 source
                                            (defaultValue t) True)
                              else (Inr False, st1))))))"

text \<open>\<open>get(selector?)\<close>: the whole value for a missing or falsy selector (the empty
  string). The result is the value itself: for an object, the reference to it.\<close>

fun selector_truthy :: "selector \<Rightarrow> bool" where
  "selector_truthy (Selector s) = (s \<noteq> [])"
| "selector_truthy (Keys ks) = True"

definition get :: "Store \<Rightarrow> selector option \<Rightarrow> js_error + hval" where
  "get st sel =
     (case sel of
        None \<Rightarrow> Inr (s_value st)
      | Some selector \<Rightarrow>
          if selector_truthy selector
          then getByPath (s_heap st) (s_value st) (parsePath selector (pathSeparator st))
          else Inr (s_value st))"

text \<open>The second argument of \<open>set\<close>: a function (\<open>typeof patch === 'function'\<close>),
  called with the value at the path, or else the new value itself. The function is
  code of the caller: from the heap and its argument it returns or throws, and leaves a
  heap (it may create objects and write to objects; it does not touch the fields of the
  store).\<close>

datatype patch =
    Updater "heap \<Rightarrow> hval \<Rightarrow> (js_error + hval) \<times> heap"
  | Patch hval

text \<open>The candidate value of \<open>set\<close>: what the updater returns for the value at the
  path (\<open>_getByPath\<close> may throw), or the patch itself; and the heap then.\<close>

definition candidate :: "Store \<Rightarrow> string list \<Rightarrow> patch \<Rightarrow> (js_error + hval) \<times> heap" where
  "candidate st targetPath p =
     (case p of
        Updater f \<Rightarrow>
          (case getByPath (s_heap st) (s_value st) targetPath of
             Inl e \<Rightarrow> (Inl e, s_heap st)
           | Inr current \<Rightarrow> f (s_heap st) current)
      | Patch v \<Rightarrow> (Inr v, s_heap st))"

text \<open>The check of \<open>set\<close> against the schema: \<open>None\<close> when the value passes, or the
  paths handed to \<open>_invalid\<close>. When \<open>getTypeByPath\<close> returns an inherited member,
  the call of its \<open>validate\<close> is a TypeError.\<close>

definition set_check ::
  "heap \<Rightarrow> hval Type \<Rightarrow> string list \<Rightarrow> hval \<Rightarrow> js_error + string list list option" where
  "set_check h t targetPath v =
     (if testTypePath t targetPath then
        (case getTypeByPath t targetPath of
           Inl e \<Rightarrow> Inl e
         | Inr (Inherited key) \<Rightarrow> Inl TypeError
         | Inr (Declared pt) \<Rightarrow>
             (case validate_h h pt v of
                Inl e \<Rightarrow> Inl e
              | Inr Valid \<Rightarrow> Inr None
              | Inr (Invalid ps) \<Rightarrow> Inr (Some (map (\<lambda>path. targetPath @ path) ps))))
      else Inr (Some [targetPath]))"

text \<open>\<open>set(selector, patch)\<close>.\<close>

definition Store_set ::
  "(heap \<Rightarrow> hval \<Rightarrow> string) \<Rightarrow> Store \<Rightarrow> selector \<Rightarrow> patch \<Rightarrow> (js_error + bool) \<times> Store" where
  "Store_set JSON_stringify st selector p =
     (let targetPath = parsePath selector (pathSeparator st) in
      case candidate st targetPath p of
        (Inl e, h) \<Rightarrow> (Inl e, st\<lparr>s_heap := h\<rparr>)
      | (Inr v, h) \<Rightarrow>
          (let st0 = st\<lparr>s_heap := h\<rparr> in
           case (case s_type st of
                   None \<Rightarrow> Inr None
                 | Some t \<Rightarrow> set_check h t targetPath v) of
             Inl e \<Rightarrow> (Inl e, st0)
           | Inr (Some failing_paths) \<Rightarrow>
               (case invalid st0 failing_paths of
                  Inl e \<Rightarrow> (Inl e, st0)
                | Inr st1 \<Rightarrow> (Inr False, st1))
           | Inr None \<Rightarrow>
               (case setByPath h (s_value st) targetPath v of
                  Inl e \<Rightarrow> (Inl e, st0)
                | Inr h' \<Rightarrow>
                    (case save_later JSON_stringify (st\<lparr>s_heap := h'\<rparr>) of
                       (Some e, st2) \<Rightarrow> (Inl e, st2)
                     | (None, st2) \<Rightarrow> (Inr True, st2)))))"

text \<open>The fields of a new Store before its first \<open>load\<close>: \<open>Store.defaults\<close> with the
  name and, for \<open>storage\<close>, the content of the medium, over the given heap. A private
  field that is not assigned yet reads as \<open>undefined\<close> (\<open>_value\<close>) or is taken as
  \<open>null\<close> (\<open>_oldSource\<close>, \<open>_saveTimer\<close>); \<open>load\<close>, which the constructor calls
  unless \<open>lazyLoad\<close> is set, assigns \<open>_value\<close> and \<open>_oldSource\<close>.\<close>

definition Store_defaults :: "string \<Rightarrow> (string \<Rightarrow> string option) \<Rightarrow> heap \<Rightarrow> Store" where
  "Store_defaults nm medium h =
     \<lparr>name = nm, s_heap = h, s_value = HUndefined, s_oldSource = None, s_defaultValue = HNull,
      s_type = None, delay = Fin 100, storage = medium, lazyLoad = False, strictLoad = True,
      secure = True, autoFix = True, onInvalid = False, onConflict = False,
      pathSeparator = ''.'', s_saveTimer = False, calls = []\<rparr>"

text \<open>The Dictionary constructor for the types of a store: the default value is a new
  object of the heap that holds the default values of the field types (the values
  themselves: a default that is an object is shared with the field type).\<close>

definition new_Dictionary_h ::
  "(string \<times> hval Type) list option \<Rightarrow> heap \<Rightarrow> hval Type \<times> heap" where
  "new_Dictionary_h tys h =
     (Dictionary (HRef (length h)) tys,
      h @ [HObject (case tys of Some ts \<Rightarrow> createDefaultDictionary_loop [] ts | None \<Rightarrow> [])])"

text \<open>The store of the demo page (test/index.js): the schema with \<open>version\<close>, \<open>str\<close> and
  \<open>n\<close>, both callbacks configured, and \<open>defaultValue\<close> taken from the type. The heap
  holds the default value of the schema, at address 0.\<close>

definition demo_fields :: "(string \<times> hval Type) list" where
  "demo_fields =
     [(''version'', Number (HNum (Fin 1)) (Fin 0) PosInf True),
      (''str'', String (HStr ''Hello, world!'') (Fin 0) PosInf None),
      (''n'', Number (HNum (Fin 0)) NegInf PosInf False)]"

abbreviation demo_default :: hobj where
  "demo_default \<equiv>
     HObject [(''version'', HNum (Fin 1)), (''str'', HStr ''Hello, world!''),
              (''n'', HNum (Fin 0))]"

definition demo_type :: "hval Type" where
  "demo_type = fst (new_Dictionary_h (Some demo_fields) [])"

definition demo_heap :: heap where
  "demo_heap = snd (new_Dictionary_h (Some demo_fields) [])"

definition demo_store :: "(string \<Rightarrow> string option) \<Rightarrow> Store" where
  "demo_store medium =
     (Store_defaults ''hstore-test'' medium demo_heap)
       \<lparr>s_type := Some demo_type, s_defaultValue := defaultValue demo_type,
        onInvalid := True, onConflict := True\<rparr>"

text \<open>The set of paths a result reports.\<close>

definition failing :: "ValidatingResult \<Rightarrow> string list set" where
  "failing r = (case r of Valid \<Rightarrow> {} | Invalid ps \<Rightarrow> set ps)"

section \<open>The runtime's JSON, for examples\<close>

text \<open>
  \<open>load\<close> and \<open>save\<close> take \<open>JSON.parse\<close> and \<open>JSON.stringify\<close> as parameters, and
  the theorems about them hold for every pair of functions. To run the store on an
  example, this section gives one pair: JSON texts of \<open>null\<close>, \<open>true\<close>, \<open>false\<close>,
  integers, strings without escapes, arrays and objects (with keys that are not names of
  integers), with white space between the tokens. \<open>JSON_parse\<close> is \<open>None\<close> where the text is not of this form;
  \<open>JSON_stringify\<close> is the empty string on a value that has no text of this form.
  Both work on a value given by its content; \<open>JSON_parse_h\<close> then builds the parsed
  value from new objects of the heap, and \<open>JSON_stringify_h\<close> reads the content of a
  value off the heap.
\<close>

definition is_ws :: "char \<Rightarrow> bool" where
  "is_ws c = (c = CHR '' '' \<or> c = CHR 0x09 \<or> c = CHR 0x0A \<or> c = CHR 0x0D)"

definition is_digit :: "char \<Rightarrow> bool" where
  "is_digit c = (48 \<le> (of_char c :: nat) \<and> (of_char c :: nat) \<le> 57)"

fun skip_ws :: "string \<Rightarrow> string" where
  "skip_ws [] = []"
| "skip_ws (c # cs) = (if is_ws c then skip_ws cs else c # cs)"

definition digit_val :: "char \<Rightarrow> nat" where
  "digit_val c = of_char c - 48"

fun nat_of_digits :: "nat \<Rightarrow> string \<Rightarrow> nat" where
  "nat_of_digits acc [] = acc"
| "nat_of_digits acc (c # cs) = nat_of_digits (10 * acc + digit_val c) cs"

text \<open>An integer literal: an optional minus, then \<open>0\<close> or digits without a leading zero.\<close>

definition parse_int :: "string \<Rightarrow> (jsval \<times> string) option" where
  "parse_int s =
     (let neg = (case s of c # _ \<Rightarrow> c = CHR ''-'' | [] \<Rightarrow> False);
          body = (if neg then tl s else s);
          ds = takeWhile is_digit body;
          rest = dropWhile is_digit body
      in if ds = [] \<or> (length ds > 1 \<and> hd ds = CHR ''0'') then None
         else if rest \<noteq> [] \<and> (hd rest = CHR ''.'' \<or> hd rest = CHR ''e'' \<or> hd rest = CHR ''E'') then None
         else Some (Num (Fin (if neg then - of_nat (nat_of_digits 0 ds) else of_nat (nat_of_digits 0 ds))), rest))"

text \<open>The characters of a string literal up to the closing quote; no escapes.\<close>

fun parse_chars :: "string \<Rightarrow> string \<Rightarrow> (string \<times> string) option" where
  "parse_chars acc [] = None"
| "parse_chars acc (c # cs) =
     (if c = CHR 0x22 then Some (rev acc, cs)
      else if c = CHR 0x5C \<or> (of_char c :: nat) < 32 then None
      else parse_chars (c # acc) cs)"

fun parse_value :: "nat \<Rightarrow> string \<Rightarrow> (jsval \<times> string) option"
  and parse_elements :: "nat \<Rightarrow> jsval list \<Rightarrow> string \<Rightarrow> (jsval \<times> string) option"
  and parse_members :: "nat \<Rightarrow> (string \<times> jsval) list \<Rightarrow> string \<Rightarrow> (jsval \<times> string) option"
where
  "parse_value 0 s = None"
| "parse_value (Suc fuel) s =
     (case skip_ws s of
        [] \<Rightarrow> None
      | c # cs \<Rightarrow>
          if take 4 (c # cs) = ''null'' then Some (Null, drop 4 (c # cs))
          else if take 4 (c # cs) = ''true'' then Some (Bool True, drop 4 (c # cs))
          else if take 5 (c # cs) = ''false'' then Some (Bool False, drop 5 (c # cs))
          else if c = CHR 0x22 then
            (case parse_chars [] cs of None \<Rightarrow> None | Some (str, rest) \<Rightarrow> Some (Str str, rest))
          else if c = CHR ''['' then
            (case skip_ws cs of
               [] \<Rightarrow> None
             | d # ds \<Rightarrow> if d = CHR '']'' then Some (Arr [], ds) else parse_elements fuel [] cs)
          else if c = CHR ''{'' then
            (case skip_ws cs of
               [] \<Rightarrow> None
             | d # ds \<Rightarrow> if d = CHR ''}'' then Some (Obj [], ds) else parse_members fuel [] cs)
          else parse_int (c # cs))"
| "parse_elements 0 acc s = None"
| "parse_elements (Suc fuel) acc s =
     (case parse_value fuel s of
        None \<Rightarrow> None
      | Some (v, rest) \<Rightarrow>
          (case skip_ws rest of
             [] \<Rightarrow> None
           | c # cs \<Rightarrow>
               if c = CHR '','' then parse_elements fuel (acc @ [v]) cs
               else if c = CHR '']'' then Some (Arr (acc @ [v]), cs)
               else None))"
| "parse_members 0 acc s = None"
| "parse_members (Suc fuel) acc s =
     (case skip_ws s of
        [] \<Rightarrow> None
      | q # qs \<Rightarrow>
          if q \<noteq> CHR 0x22 then None
          else
            (case parse_chars [] qs of
               None \<Rightarrow> None
             | Some (key, rest) \<Rightarrow>
                 if is_index key then None else
                 (case skip_ws rest of
                    [] \<Rightarrow> None
                  | c # cs \<Rightarrow>
                      if c \<noteq> CHR '':'' then None
                      else
                        (case parse_value fuel cs of
                           None \<Rightarrow> None
                         | Some (v, rest') \<Rightarrow>
                             (case skip_ws rest' of
                                [] \<Rightarrow> None
                              | d # ds \<Rightarrow>
                                  if d = CHR '','' then parse_members fuel (AList.update key v acc) ds
                                  else if d = CHR ''}'' then Some (Obj (AList.update key v acc), ds)
                                  else None)))))"

definition JSON_parse :: "string \<Rightarrow> jsval option" where
  "JSON_parse s =
     (case parse_value (Suc (length s)) s of
        None \<Rightarrow> None
      | Some (v, rest) \<Rightarrow> if skip_ws rest = [] then Some v else None)"

definition quote :: "string \<Rightarrow> string option" where
  "quote s = (if list_all (\<lambda>c. c \<noteq> CHR 0x22 \<and> c \<noteq> CHR 0x5C \<and> 32 \<le> (of_char c :: nat) \<and> (of_char c :: nat) < 127) s
              then Some ([CHR 0x22] @ s @ [CHR 0x22]) else None)"

definition number_text :: "jsnum \<Rightarrow> string option" where
  "number_text x =
     (case x of
        Fin r \<Rightarrow>
          if frac r = 0 \<and> \<bar>r\<bar> < 10 ^ 21
          then Some ((if r < 0 then ''-'' else '''') @ string_of_nat (nat \<bar>\<lfloor>r\<rfloor>\<bar>))
          else None
      | _ \<Rightarrow> Some ''null'')"

fun json_text :: "jsval \<Rightarrow> string option"
  and element_texts :: "jsval list \<Rightarrow> string list option"
  and member_texts :: "(string \<times> jsval) list \<Rightarrow> string list option"
where
  "json_text Undefined = None"
| "json_text Null = Some ''null''"
| "json_text (Bool b) = Some (if b then ''true'' else ''false'')"
| "json_text (Num x) = number_text x"
| "json_text (Str s) = quote s"
| "json_text (Arr xs) = map_option (\<lambda>ts. ''['' @ join ts '','' @ '']'') (element_texts xs)"
| "json_text (Obj kvs) = map_option (\<lambda>ts. ''{'' @ join ts '','' @ ''}'') (member_texts kvs)"
| "element_texts [] = Some []"
| "element_texts (x # xs) =
     (case (if x = Undefined then Some ''null'' else json_text x) of
        None \<Rightarrow> None
      | Some t \<Rightarrow> map_option ((#) t) (element_texts xs))"
| "member_texts [] = Some []"
| "member_texts ((key, x) # kvs) =
     (if x = Undefined then member_texts kvs
      else (case (quote key, json_text x) of
              (Some k, Some t) \<Rightarrow> map_option ((#) (k @ '':'' @ t)) (member_texts kvs)
            | _ \<Rightarrow> None))"

definition JSON_stringify :: "jsval \<Rightarrow> string" where
  "JSON_stringify v = (case json_text v of Some t \<Rightarrow> t | None \<Rightarrow> [])"

text \<open>The parsed value as new objects: the parts of an array or object first, then the
  array or object itself, at the end of the heap.\<close>

fun alloc :: "jsval \<Rightarrow> heap \<Rightarrow> hval \<times> heap"
  and alloc_list :: "jsval list \<Rightarrow> heap \<Rightarrow> hval list \<times> heap"
  and alloc_entries :: "(string \<times> jsval) list \<Rightarrow> heap \<Rightarrow> (string \<times> hval) list \<times> heap"
where
  "alloc Undefined h = (HUndefined, h)"
| "alloc Null h = (HNull, h)"
| "alloc (Bool b) h = (HBool b, h)"
| "alloc (Num x) h = (HNum x, h)"
| "alloc (Str s) h = (HStr s, h)"
| "alloc (Arr xs) h =
     (case alloc_list xs h of (ws, h') \<Rightarrow> (HRef (length h'), h' @ [HArray ws]))"
| "alloc (Obj kvs) h =
     (case alloc_entries kvs h of (es, h') \<Rightarrow> (HRef (length h'), h' @ [HObject es]))"
| "alloc_list [] h = ([], h)"
| "alloc_list (x # xs) h =
     (case alloc x h of (w, h1) \<Rightarrow>
        (case alloc_list xs h1 of (ws, h2) \<Rightarrow> (w # ws, h2)))"
| "alloc_entries [] h = ([], h)"
| "alloc_entries ((key, x) # kvs) h =
     (case alloc x h of (w, h1) \<Rightarrow>
        (case alloc_entries kvs h1 of (es, h2) \<Rightarrow> ((key, w) # es, h2)))"

definition JSON_parse_h :: "string \<Rightarrow> heap \<Rightarrow> (hval \<times> heap) option" where
  "JSON_parse_h s h = (case JSON_parse s of None \<Rightarrow> None | Some v \<Rightarrow> Some (alloc v h))"

text \<open>The content of a value of the heap, read to the depth \<open>fuel\<close>; \<open>None\<close> when the
  value goes deeper (as every value with a cycle does). \<open>JSON.stringify\<close> treats a
  function as it treats \<open>undefined\<close>.\<close>

fun unfold :: "nat \<Rightarrow> heap \<Rightarrow> hval \<Rightarrow> jsval option"
  and unfold_list :: "nat \<Rightarrow> heap \<Rightarrow> hval list \<Rightarrow> jsval list option"
  and unfold_entries :: "nat \<Rightarrow> heap \<Rightarrow> (string \<times> hval) list \<Rightarrow> (string \<times> jsval) list option"
where
  "unfold fuel h HUndefined = Some Undefined"
| "unfold fuel h HNull = Some Null"
| "unfold fuel h (HBool b) = Some (Bool b)"
| "unfold fuel h (HNum x) = Some (Num x)"
| "unfold fuel h (HStr s) = Some (Str s)"
| "unfold fuel h (HFun f) = Some Undefined"
| "unfold 0 h (HRef a) = None"
| "unfold (Suc fuel) h (HRef a) =
     (case lookup h a of
        Some (HArray xs) \<Rightarrow> map_option Arr (unfold_list fuel h xs)
      | Some (HObject kvs) \<Rightarrow> map_option Obj (unfold_entries fuel h kvs)
      | None \<Rightarrow> None)"
| "unfold_list fuel h [] = Some []"
| "unfold_list fuel h (x # xs) =
     (case unfold fuel h x of
        None \<Rightarrow> None
      | Some v \<Rightarrow> map_option ((#) v) (unfold_list fuel h xs))"
| "unfold_entries fuel h [] = Some []"
| "unfold_entries fuel h ((key, x) # kvs) =
     (case unfold fuel h x of
        None \<Rightarrow> None
      | Some v \<Rightarrow> map_option ((#) (key, v)) (unfold_entries fuel h kvs))"

definition JSON_stringify_h :: "heap \<Rightarrow> hval \<Rightarrow> string" where
  "JSON_stringify_h h v =
     (case unfold (length h) h v of Some t \<Rightarrow> JSON_stringify t | None \<Rightarrow> [])"

section \<open>Properties\<close>

subsection \<open>Dictionary.validate\<close>

lemma object_condition: "(truthy v \<and> typeof v = ''object'') = (typeof v = ''object'' \<and> v \<noteq> Null)"
  by (cases v) auto

lemma set_validate_entries:
  "set (validate_entries ts v) =
     {key # path | key t path. (key, t) \<in> set ts \<and> path \<in> failing (validate t (js_get v key))}"
proof (induction ts)
  case Nil
  show ?case by simp
next
  case (Cons e ts)
  obtain key t where e: "e = (key, t)" by (cases e)
  have hd: "set (case validate t (js_get v key) of Valid \<Rightarrow> []
                 | Invalid ps \<Rightarrow> map (\<lambda>path. [key] @ path) ps)
            = {key # path | path. path \<in> failing (validate t (js_get v key))}"
    by (cases "validate t (js_get v key)") (auto simp: failing_def)
  have split: "{k # path | k u path. (k, u) \<in> set ((key, t) # ts)
                   \<and> path \<in> failing (validate u (js_get v k))}
             = {key # path | path. path \<in> failing (validate t (js_get v key))}
               \<union> {k # path | k u path. (k, u) \<in> set ts
                   \<and> path \<in> failing (validate u (js_get v k))}"
    by auto
  show ?case
    unfolding e split using Cons.IH hd by simp
qed

lemma failing_createValidatingResult:
  "failing (createValidatingResult (ps = []) (Some ps)) = set ps"
  by (cases ps) (simp_all add: createValidatingResult_def failing_def)

lemma valid_createValidatingResult: "valid (createValidatingResult b ps) = b"
  by (simp add: createValidatingResult_def)

lemma key_in_iff:
  "key_in key ts = (key \<in> fst ` set ts \<or> key \<in> set Object_prototype_names)"
  by (simp add: key_in_def map_of_eq_None_iff)

text \<open>
  C1. The claim: \<open>Dictionary.validate(v)\<close> reports every key of \<open>v\<close> that the field
  mapping does not have. The code tests \<open>key in types\<close>, which is also true for a name
  that the object \<open>types\<close> inherits from \<open>Object.prototype\<close>. So the Dictionary with
  the one field \<open>n\<close> (a number type built with the default options) reports nothing
  on the object \<open>{n: 1, toString: 1}\<close>, the value of the JSON text
  \<open>{"n":1,"toString":1}\<close>: the key \<open>toString\<close> is present in the value and absent
  from the field mapping, and the value is valid.
\<close>

theorem Dictionary_validate_misses_inherited_key:
  \<open>new_Number None = Inr (Number (Num (Fin 0)) NegInf PosInf False)
   \<and> JSON_parse ''{"n":1,"toString":1}''
       = Some (Obj [(''n'', Num (Fin 1)), (''toString'', Num (Fin 1))])
   \<and> ''toString'' \<in> set (Object_keys (Obj [(''n'', Num (Fin 1)), (''toString'', Num (Fin 1))]))
   \<and> ''toString'' \<notin> fst ` set [(''n'', Number (Num (Fin 0)) NegInf PosInf False)]
   \<and> validate (new_Dictionary (Some [(''n'', Number (Num (Fin 0)) NegInf PosInf False)]))
        (Obj [(''n'', Num (Fin 1)), (''toString'', Num (Fin 1))])
       = Valid\<close>
proof -
  have p: \<open>JSON_parse ''{"n":1,"toString":1}''
             = Some (Obj [(''n'', Num (Fin 1)), (''toString'', Num (Fin 1))])\<close>
    by code_simp
  have n: "new_Number None = Inr (Number (Num (Fin 0)) NegInf PosInf False)"
    by (simp add: new_Number_def or_default_def validateDefaultValue_def
        createValidatingResult_def num_ge_def trunc_def)
  have v: "validate (new_Dictionary (Some [(''n'', Number (Num (Fin 0)) NegInf PosInf False)]))
        (Obj [(''n'', Num (Fin 1)), (''toString'', Num (Fin 1))]) = Valid"
    by (simp add: new_Dictionary_def createValidatingResult_def key_in_def
        Object_prototype_names_def num_ge_def)
  show ?thesis by (intro conjI p n v) simp_all
qed

subsection \<open>List.validate\<close>

lemma truthy_result_always: "truthy_result r"
  by (cases r) simp_all

lemma validate_every_always: "validate_every t xs"
  by (induction xs) (simp_all add: truthy_result_always)

text \<open>What \<open>List.validate\<close> computes: a value is valid exactly when it is an array,
  whatever its elements.\<close>

theorem List_validate_isArray:
  "validate (List d t) v = (if isArray v then Valid else Invalid [[]])"
  by (cases v) (simp_all add: createValidatingResult_def validate_every_always)

text \<open>
  C4. The claim: a list is valid iff the value is an array and every element is valid
  for the element type. The callback of \<open>every\<close> returns the result object of
  \<open>type.validate(element)\<close>, not its \<open>valid\<close> field, and an object is truthy. So a List of
  numbers (both built by their constructors with the default options) accepts the array
  \<open>["x"]\<close>, whose element the number type rejects.
\<close>

theorem List_validate_accepts_invalid_element:
  "new_Number None = Inr (Number (Num (Fin 0)) NegInf PosInf False)
   \<and> new_List (Some (ListOptions None (Number (Num (Fin 0)) NegInf PosInf False)))
       = Inr (List (Arr []) (Number (Num (Fin 0)) NegInf PosInf False))
   \<and> validate (Number (Num (Fin 0)) NegInf PosInf False) (Str ''x'') = Invalid [[]]
   \<and> validate (List (Arr []) (Number (Num (Fin 0)) NegInf PosInf False)) (Arr [Str ''x''])
       = Valid"
  by (simp add: new_Number_def new_List_def or_default_def validateDefaultValue_def
      createValidatingResult_def num_ge_def trunc_def)

subsection \<open>Nullable\<close>

text \<open>
  C5. The claim: a Nullable accepts \<open>null\<close> when its null flag is set, \<open>undefined\<close> when
  its undefined flag is set, and nothing else. \<open>validate\<close> compares the value with the
  flag (\<open>value === this.undefined\<close>) instead of with \<open>undefined\<close>: the Nullable of the
  default options rejects \<open>undefined\<close> and accepts \<open>true\<close>.
\<close>

theorem Nullable_validate_compares_with_flag:
  "new_Nullable None = Inr (Nullable Null True True)
   \<and> validate (Nullable Null True True) Undefined = Invalid [[]]
   \<and> validate (Nullable Null True True) (Bool True) = Valid"
  by (simp add: new_Nullable_def or_default_def createValidatingResult_def)

text \<open>
  C7. The claim: the default value of every constructed Type passes its own \<open>validate\<close>.
  \<open>new Nullable({null: false})\<close> sets the default to \<open>undefined\<close> without validating it,
  and \<open>validate\<close> rejects \<open>undefined\<close> (the comparison with the flag of C5).
\<close>

theorem Nullable_default_fails_validate:
  "new_Nullable (Some (NullableOptions None (Some False) None))
     = Inr (Nullable Undefined False True)
   \<and> validate (Nullable Undefined False True) (defaultValue (Nullable Undefined False True))
     = Invalid [[]]"
  by (simp add: new_Nullable_def or_default_def createValidatingResult_def)

subsection \<open>save\<close>


lemma demo_type_eq: "demo_type = Dictionary (HRef 0) (Some demo_fields)"
  by (simp add: demo_type_def new_Dictionary_h_def)

lemma demo_heap_eq: "demo_heap = [demo_default]"
  by (simp add: demo_heap_def new_Dictionary_h_def demo_fields_def)

lemma demo_clone: "clone_top [demo_default] (HRef 0) = Inr (HRef 1, [demo_default, demo_default])"
  by code_simp

lemma demo_getDefaultValue:
  "getDefaultValue (demo_store m) = Inr (HRef 1, [demo_default, demo_default])"
  by (simp add: getDefaultValue_def demo_store_def Store_defaults_def demo_type_eq demo_heap_eq
      indexable_def demo_clone)


subsection \<open>load\<close>

lemma getDefaultValue_Null:
  "s_defaultValue st = HNull \<Longrightarrow> getDefaultValue st = Inr (HNull, s_heap st)"
  by (simp add: getDefaultValue_def indexable_def)

text \<open>
  C6, as amended. The claim: \<open>load()\<close> fails on a store without schema and default when
  the medium has no source. The code takes the default (\<open>null\<close>) as the value when the
  source is \<open>null\<close> and validates only with a schema, so the load succeeds: it returns
  true, sets \<open>_value\<close> and \<open>_oldSource\<close> to \<open>null\<close>, and requests a save (a
  timeout, or a save at once when \<open>delay\<close> is 0, which then writes
  \<open>JSON.stringify(null)\<close>).
\<close>

theorem load_without_schema_default_source:
  "s_type st = None \<Longrightarrow> s_defaultValue st = HNull \<Longrightarrow> storage st (name st) = None \<Longrightarrow>
     load parse stringify st None
       = (Inr True,
          if truthy (Num (delay st))
          then st\<lparr>s_oldSource := None, s_value := HNull, s_saveTimer := True\<rparr>
          else st\<lparr>s_oldSource := Some (stringify (s_heap st) HNull), s_value := HNull,
                  storage := (storage st)(name st \<mapsto> stringify (s_heap st) HNull)\<rparr>)"
  by (simp add: load_def getDefaultValue_Null load_commit_def save_later_def save_def
      checkConflict_def Let_def del: truthy.simps)

text \<open>
  The claim fails on \<open>new Store('k')\<close> over an empty medium: \<open>load()\<close> returns true.
\<close>

theorem load_without_schema_default_source_counterexample:
  "load JSON_parse_h JSON_stringify_h (Store_defaults ''k'' Map.empty []) None
     = (Inr True,
        (Store_defaults ''k'' Map.empty [])
          \<lparr>s_oldSource := None, s_value := HNull, s_saveTimer := True\<rparr>)"
  by (simp add: load_def getDefaultValue_def indexable_def load_commit_def save_later_def
      Store_defaults_def)

text \<open>
  The theorem on the same store with \<open>delay\<close> 0: the save runs at once and the medium
  holds \<open>null\<close> afterwards.
\<close>

theorem load_without_schema_default_source_witness:
  "load JSON_parse_h JSON_stringify_h ((Store_defaults ''k'' Map.empty [])\<lparr>delay := Fin 0\<rparr>) None
     = (Inr True,
        (Store_defaults ''k'' (Map.empty(''k'' \<mapsto> ''null'')) [])
          \<lparr>delay := Fin 0, s_oldSource := Some ''null'', s_value := HNull\<rparr>)"
proof -
  let ?st = "(Store_defaults ''k'' Map.empty [])\<lparr>delay := Fin 0\<rparr>"
  have s: "JSON_stringify_h [] HNull = ''null''" by code_simp
  have "s_type ?st = None" "s_defaultValue ?st = HNull" "storage ?st (name ?st) = None"
    by (simp_all add: Store_defaults_def)
  from load_without_schema_default_source [OF this, of JSON_parse_h JSON_stringify_h]
  show ?thesis by (simp add: Store_defaults_def s)
qed

lemma load_accepted:
  assumes "s_type st = Some t"
    and "getDefaultValue st = Inr (d, h1)"
    and "parse S h1 = Some (v, h2)"
    and "validate_h h2 t v = Inr Valid"
  shows "load parse stringify st (Some (Some S))
           = (Inr True, st\<lparr>s_heap := h2, s_oldSource := Some S, s_value := v\<rparr>)"
  using assms by (simp add: load_def load_commit_def)

text \<open>
  C8, as amended. When cloning the default value returns, the source \<open>S\<close> parses and
  the schema accepts the parsed value, then \<open>load(S)\<close>, and \<open>load()\<close> over a medium
  holding \<open>S\<close>, return true, keep \<open>S\<close> as the baseline and the parsed value as
  \<open>_value\<close> (no repair, no callback, no save); \<open>get()\<close> returns the parsed value, so
  serializing it again gives \<open>JSON.stringify(JSON.parse(S))\<close>, which is \<open>S\<close> only
  when \<open>S\<close> is the text \<open>JSON.stringify\<close> writes for that value.
\<close>

theorem load_valid_source:
  assumes "s_type st = Some t"
    and "getDefaultValue st = Inr (d, h1)"
    and "parse S h1 = Some (v, h2)"
    and "validate_h h2 t v = Inr Valid"
  shows "load parse stringify st (Some (Some S))
           = (Inr True, st\<lparr>s_heap := h2, s_oldSource := Some S, s_value := v\<rparr>)
         \<and> (storage st (name st) = Some S \<longrightarrow>
              load parse stringify st None
                = (Inr True, st\<lparr>s_heap := h2, s_oldSource := Some S, s_value := v\<rparr>))
         \<and> get (st\<lparr>s_heap := h2, s_oldSource := Some S, s_value := v\<rparr>) None = Inr v
         \<and> map_sum id (stringify (s_heap (snd (load parse stringify st (Some (Some S))))))
             (get (snd (load parse stringify st (Some (Some S)))) None)
             = Inr (stringify h2 v)"
  using assms by (simp add: load_def load_commit_def get_def)

text \<open>
  The claim (the text written again equals \<open>S\<close>) fails on the demo store for a source
  with a space after each colon and comma: the value is accepted and loaded (the heap
  then holds the default value, its clone and the parsed object), and its serialization
  has no spaces.
\<close>

theorem load_valid_source_counterexample:
  \<open>JSON_parse_h ''{"version": 1, "str": "a", "n": 2}'' [demo_default, demo_default]
     = Some (HRef 2,
             [demo_default, demo_default,
              HObject [(''version'', HNum (Fin 1)), (''str'', HStr ''a''), (''n'', HNum (Fin 2))]])
   \<and> validate_h
        [demo_default, demo_default,
         HObject [(''version'', HNum (Fin 1)), (''str'', HStr ''a''), (''n'', HNum (Fin 2))]]
        demo_type (HRef 2) = Inr Valid
   \<and> load JSON_parse_h JSON_stringify_h (demo_store Map.empty)
        (Some (Some ''{"version": 1, "str": "a", "n": 2}''))
       = (Inr True,
          (demo_store Map.empty)
            \<lparr>s_heap := [demo_default, demo_default,
                        HObject [(''version'', HNum (Fin 1)), (''str'', HStr ''a''),
                                 (''n'', HNum (Fin 2))]],
             s_oldSource := Some ''{"version": 1, "str": "a", "n": 2}'',
             s_value := HRef 2\<rparr>)
   \<and> get ((demo_store Map.empty)
            \<lparr>s_heap := [demo_default, demo_default,
                        HObject [(''version'', HNum (Fin 1)), (''str'', HStr ''a''),
                                 (''n'', HNum (Fin 2))]],
             s_oldSource := Some ''{"version": 1, "str": "a", "n": 2}'',
             s_value := HRef 2\<rparr>) None
       = Inr (HRef 2)
   \<and> JSON_stringify_h
        [demo_default, demo_default,
         HObject [(''version'', HNum (Fin 1)), (''str'', HStr ''a''), (''n'', HNum (Fin 2))]]
        (HRef 2)
       = ''{"version":1,"str":"a","n":2}''
   \<and> ''{"version":1,"str":"a","n":2}'' \<noteq> ''{"version": 1, "str": "a", "n": 2}''\<close>
proof -
  let ?h = "[demo_default, demo_default,
             HObject [(''version'', HNum (Fin 1)), (''str'', HStr ''a''), (''n'', HNum (Fin 2))]]"
  have p: \<open>JSON_parse_h ''{"version": 1, "str": "a", "n": 2}'' [demo_default, demo_default]
             = Some (HRef 2, ?h)\<close>
    by code_simp
  have s: \<open>JSON_stringify_h ?h (HRef 2) = ''{"version":1,"str":"a","n":2}''\<close>
    by code_simp
  have v: "validate_h ?h demo_type (HRef 2) = Inr Valid"
    by (simp add: demo_type_eq demo_fields_def indexable_def hkeys_def lookup_def
        createValidatingResult_def key_in_def num_ge_def trunc_def)
  have l: \<open>load JSON_parse_h JSON_stringify_h (demo_store Map.empty)
        (Some (Some ''{"version": 1, "str": "a", "n": 2}''))
       = (Inr True,
          (demo_store Map.empty)
            \<lparr>s_heap := ?h, s_oldSource := Some ''{"version": 1, "str": "a", "n": 2}'',
             s_value := HRef 2\<rparr>)\<close>
    by (rule load_accepted [where parse = JSON_parse_h and t = demo_type,
          OF _ demo_getDefaultValue p v])
       (simp add: demo_store_def)
  show ?thesis
    by (intro conjI p v l s) (simp_all add: get_def)
qed

text \<open>
  The theorem on the demo store over a medium that holds the text without spaces: here
  the text written again is the source.
\<close>

theorem load_valid_source_witness:
  \<open>load JSON_parse_h JSON_stringify_h
      (demo_store (Map.empty(''hstore-test'' \<mapsto> ''{"version":1,"str":"a","n":2}''))) None
     = (Inr True,
        (demo_store (Map.empty(''hstore-test'' \<mapsto> ''{"version":1,"str":"a","n":2}'')))
          \<lparr>s_heap := [demo_default, demo_default,
                      HObject [(''version'', HNum (Fin 1)), (''str'', HStr ''a''),
                               (''n'', HNum (Fin 2))]],
           s_oldSource := Some ''{"version":1,"str":"a","n":2}'',
           s_value := HRef 2\<rparr>)
   \<and> map_sum id
        (JSON_stringify_h
           (s_heap (snd (load JSON_parse_h JSON_stringify_h
                     (demo_store (Map.empty(''hstore-test'' \<mapsto> ''{"version":1,"str":"a","n":2}'')))
                     (Some (Some ''{"version":1,"str":"a","n":2}''))))))
        (get (snd (load JSON_parse_h JSON_stringify_h
                     (demo_store (Map.empty(''hstore-test'' \<mapsto> ''{"version":1,"str":"a","n":2}'')))
                     (Some (Some ''{"version":1,"str":"a","n":2}'')))) None)
     = Inr ''{"version":1,"str":"a","n":2}''\<close>
proof -
  let ?h = "[demo_default, demo_default,
             HObject [(''version'', HNum (Fin 1)), (''str'', HStr ''a''), (''n'', HNum (Fin 2))]]"
  let ?st = \<open>demo_store (Map.empty(''hstore-test'' \<mapsto> ''{"version":1,"str":"a","n":2}''))\<close>
  have p: \<open>JSON_parse_h ''{"version":1,"str":"a","n":2}'' [demo_default, demo_default]
             = Some (HRef 2, ?h)\<close>
    by code_simp
  have s: \<open>JSON_stringify_h ?h (HRef 2) = ''{"version":1,"str":"a","n":2}''\<close>
    by code_simp
  have v: "validate_h ?h demo_type (HRef 2) = Inr Valid"
    by (simp add: demo_type_eq demo_fields_def indexable_def hkeys_def lookup_def
        createValidatingResult_def key_in_def num_ge_def trunc_def)
  have ty: "s_type ?st = Some demo_type" by (simp add: demo_store_def)
  have m: \<open>storage ?st (name ?st) = Some ''{"version":1,"str":"a","n":2}''\<close>
    by (simp add: demo_store_def Store_defaults_def)
  note r = load_valid_source [where parse = JSON_parse_h and stringify = JSON_stringify_h,
             OF ty demo_getDefaultValue p v]
  show ?thesis
    using r [THEN conjunct2, THEN conjunct1, THEN mp, OF m]
          r [THEN conjunct2, THEN conjunct2, THEN conjunct2]
    by (simp only: s)
qed

subsection \<open>set\<close>

lemma of_char_last_string_of_nat:
  "of_char (last (string_of_nat n)) = (48 + n mod 10 :: nat)"
proof -
  have "(48 + n mod 10) mod 256 = (48 + n mod 10 :: nat)" by (simp add: mod_less)
  then show ?thesis
    by (subst string_of_nat.simps) (auto simp: mod_less)
qed

lemma string_of_nat_not_length: "string_of_nat n \<noteq> ''length''"
proof
  assume "string_of_nat n = ''length''"
  then have "of_char (last (string_of_nat n)) = (of_char (last ''length'') :: nat)" by simp
  then have "48 + n mod 10 = (104 :: nat)" by (simp add: of_char_last_string_of_nat)
  then show False by arith
qed

lemma find_upt_Suc_less:
  "find P [0..<Suc n] = Some i \<Longrightarrow> i < n \<Longrightarrow> find P [0..<n] = Some i"
  by (auto simp: find_Some_iff nth_append split: if_splits)

lemma indexable_iff: "indexable v = (\<exists>a. v = HRef a)"
  by (cases v) (auto simp: indexable_def)


lemma hput_frame: "hput h (HRef a) key v = Inr h' \<Longrightarrow> b \<noteq> a \<Longrightarrow> lookup h' b = lookup h b"
  by (auto simp: lookup_def split: option.splits hobj.splits if_splits)

lemma hget_hput: "hput h (HRef a) key v = Inr h' \<Longrightarrow> hget h' (HRef a) key = Inr v"
proof -
  assume put: "hput h (HRef a) key v = Inr h'"
  then obtain ob where lk: "lookup h a = Some ob" by (auto split: option.splits)
  then have a: "a < length h" by (auto simp: lookup_def split: if_splits)
  show ?thesis
  proof (cases ob)
    case (HObject kvs)
    with put lk have h': "h' = h[a := HObject (AList.update key v kvs)]"
      by (auto split: if_splits)
    have "lookup h' a = Some (HObject (AList.update key v kvs))"
      unfolding h' using a by (simp add: lookup_def)
    then show ?thesis by (simp add: update_conv')
  next
    case (HArray xs)
    with put lk obtain i where
      f: "find (\<lambda>i. string_of_nat i = key) [0..<Suc (length xs)] = Some i" and
      h': "h' = h[a := HArray (if i < length xs then xs[i := v] else xs @ [v])]"
      by (auto split: option.splits)
    from f have key: "string_of_nat i = key" and le: "i \<le> length xs"
      by (auto simp: find_Some_iff nth_append split: if_splits)
    have nl: "key \<noteq> ''length''" using key string_of_nat_not_length by blast
    have lk': "lookup h' a = Some (HArray (if i < length xs then xs[i := v] else xs @ [v]))"
      unfolding h' using a by (simp add: lookup_def)
    show ?thesis
    proof (cases "i < length xs")
      case True
      have "find (\<lambda>i. string_of_nat i = key) [0..<length xs] = Some i"
        using find_upt_Suc_less[OF f True] .
      with True lk' nl show ?thesis by simp
    next
      case False
      with le have "i = length xs" by simp
      with f lk' nl False show ?thesis by simp
    qed
  qed
qed

lemma setByPath_append:
  "setByPath h ob (q @ [key]) v =
     (case getByPath h ob q of
        Inl e \<Rightarrow> Inl e
      | Inr r \<Rightarrow> if indexable r then hput h r key v else Inl (Throw INVALID_PATH))"
proof (induction q arbitrary: ob)
  case Nil
  show ?case by simp
next
  case (Cons k q)
  obtain k2 rest where r: "q @ [key] = k2 # rest" by (cases "q @ [key]") auto
  show ?case
    using Cons.IH by (simp add: r[symmetric] setByPath.simps(3)[of h ob k k2 rest v, folded r] split: sum.splits)
qed


lemma invalid_message_heap [simp]: "invalid_message (st\<lparr>s_heap := h\<rparr>) ps = invalid_message st ps"
  by (simp add: invalid_message_def)










subsection \<open>_clone\<close>






lemma wf_heap_object:
  "wf_heap h \<Longrightarrow> lookup h a = Some (HObject kvs) \<Longrightarrow>
     distinct (map fst kvs) \<and> list_all (ref_ok h) (map snd kvs)"
  by (auto simp: wf_heap_def lookup_def list_all_length split: if_splits)


lemma resolve_nonref:
  "\<forall>b. u \<noteq> HRef b \<Longrightarrow> resolve h u p = Some w \<Longrightarrow> p = [] \<and> w = u"
  by (cases p; cases u) auto

lemma resolve_array:
  "lookup h a = Some (HArray xs) \<Longrightarrow> resolve h (HRef a) p = Some w \<Longrightarrow> p = [] \<and> w = HRef a"
  by (cases p) auto

lemma resolve_object:
  assumes "lookup h a = Some (HObject kvs)" "distinct (map fst kvs)"
  shows "(resolve h (HRef a) (k # p) = Some w) = (\<exists>u. (k, u) \<in> set kvs \<and> resolve h u p = Some w)"
proof -
  have m: "((k, u) \<in> set kvs) = (map_of kvs k = Some u)" for u
    using map_of_eq_Some_iff[OF assms(2)] by simp
  show ?thesis
    by (cases "map_of kvs k") (simp_all add: assms(1) m)
qed

lemma below_object:
  assumes "lookup h a = Some (HObject kvs)" "distinct (map fst kvs)"
  shows "refs_below h (HRef a) = entry_refs h kvs"
    and "meets_null h (HRef a) = entries_null h kvs"
    and "met_twice h (HRef a) = entries_twice h kvs"
proof -
  note ro = resolve_object[OF assms]
  show "refs_below h (HRef a) = entry_refs h kvs"
  proof (rule set_eqI)
    fix w
    show "(w \<in> refs_below h (HRef a)) = (w \<in> entry_refs h kvs)"
    proof
      assume "w \<in> refs_below h (HRef a)"
      then obtain b p where w: "w = HRef b" and p: "p \<noteq> []"
        and r: "resolve h (HRef a) p = Some (HRef b)"
        unfolding refs_below_def by blast
      from p obtain k q where pk: "p = k # q" by (cases p) auto
      from r obtain u where "(k, u) \<in> set kvs" "resolve h u q = Some (HRef b)"
        unfolding pk ro by blast
      with w show "w \<in> entry_refs h kvs" unfolding entry_refs_def by blast
    next
      assume "w \<in> entry_refs h kvs"
      then obtain b k u q where w: "w = HRef b" and e: "(k, u) \<in> set kvs"
        "resolve h u q = Some (HRef b)"
        unfolding entry_refs_def by blast
      from e have "resolve h (HRef a) (k # q) = Some (HRef b)" unfolding ro by blast
      moreover have "k # q \<noteq> []" by simp
      ultimately show "w \<in> refs_below h (HRef a)" using w unfolding refs_below_def by blast
    qed
  qed
  show "meets_null h (HRef a) = entries_null h kvs"
  proof
    assume "meets_null h (HRef a)"
    then obtain p where p: "p \<noteq> []" and r: "resolve h (HRef a) p = Some HNull"
      unfolding meets_null_def by blast
    from p obtain k q where pk: "p = k # q" by (cases p) auto
    from r obtain u where "(k, u) \<in> set kvs" "resolve h u q = Some HNull"
      unfolding pk ro by blast
    then show "entries_null h kvs" unfolding entries_null_def by blast
  next
    assume "entries_null h kvs"
    then obtain k u q where e: "(k, u) \<in> set kvs" "resolve h u q = Some HNull"
      unfolding entries_null_def by blast
    from e have "resolve h (HRef a) (k # q) = Some HNull" unfolding ro by blast
    moreover have "k # q \<noteq> []" by simp
    ultimately show "meets_null h (HRef a)" unfolding meets_null_def by blast
  qed
  show "met_twice h (HRef a) = entries_twice h kvs"
  proof
    assume "met_twice h (HRef a)"
    then obtain p q b where pq: "p \<noteq> q" "p \<noteq> []" "q \<noteq> []"
      "resolve h (HRef a) p = Some (HRef b)" "resolve h (HRef a) q = Some (HRef b)"
      unfolding met_twice_def by blast
    from pq(2) obtain k p' where p: "p = k # p'" by (cases p) auto
    from pq(3) obtain k' q' where q: "q = k' # q'" by (cases q) auto
    from pq(4) obtain u where u: "(k, u) \<in> set kvs" "resolve h u p' = Some (HRef b)"
      unfolding p ro by blast
    from pq(5) obtain u' where u': "(k', u') \<in> set kvs" "resolve h u' q' = Some (HRef b)"
      unfolding q ro by blast
    have "(k, p') \<noteq> (k', q')" using pq(1) p q by simp
    with u u' show "entries_twice h kvs" unfolding entries_twice_def by blast
  next
    assume "entries_twice h kvs"
    then obtain k u p k' u' q b where e: "(k, u) \<in> set kvs" "(k', u') \<in> set kvs"
      "(k, p) \<noteq> (k', q)" "resolve h u p = Some (HRef b)" "resolve h u' q = Some (HRef b)"
      unfolding entries_twice_def by blast
    have 1: "resolve h (HRef a) (k # p) = Some (HRef b)" using e(1,4) unfolding ro by blast
    have 2: "resolve h (HRef a) (k' # q) = Some (HRef b)" using e(2,5) unfolding ro by blast
    have "k # p \<noteq> k' # q" using e(3) by simp
    with 1 2 show "met_twice h (HRef a)" unfolding met_twice_def
      by (intro exI[of _ "k # p"] exI[of _ "k' # q"] exI[of _ b]) simp
  qed
qed

lemma below_array:
  assumes "lookup h a = Some (HArray xs)"
  shows "refs_below h (HRef a) = {}" "\<not> meets_null h (HRef a)" "\<not> met_twice h (HRef a)"
  using resolve_array[OF assms]
  unfolding refs_below_def meets_null_def met_twice_def by blast+

lemma entries_Cons:
  shows "entry_refs h ((k, u) # rest) = all_refs h u \<union> entry_refs h rest"
    and "entries_null h ((k, u) # rest) = (null_from h u \<or> entries_null h rest)"
proof -
  show "entry_refs h ((k, u) # rest) = all_refs h u \<union> entry_refs h rest"
  proof (rule set_eqI)
    fix w
    show "(w \<in> entry_refs h ((k, u) # rest)) = (w \<in> all_refs h u \<union> entry_refs h rest)"
    proof
      assume "w \<in> entry_refs h ((k, u) # rest)"
      then obtain b k1 u1 p where w: "w = HRef b" and m: "(k1, u1) \<in> set ((k, u) # rest)"
        and r: "resolve h u1 p = Some (HRef b)"
        unfolding entry_refs_def by blast
      from m have "(k1, u1) = (k, u) \<or> (k1, u1) \<in> set rest" by simp
      then show "w \<in> all_refs h u \<union> entry_refs h rest"
      proof
        assume "(k1, u1) = (k, u)"
        with r w have "w \<in> all_refs h u" unfolding all_refs_def by blast
        then show ?thesis by simp
      next
        assume "(k1, u1) \<in> set rest"
        with r w have "w \<in> entry_refs h rest" unfolding entry_refs_def by blast
        then show ?thesis by simp
      qed
    next
      assume "w \<in> all_refs h u \<union> entry_refs h rest"
      then show "w \<in> entry_refs h ((k, u) # rest)"
      proof
        assume "w \<in> all_refs h u"
        then obtain b p where "w = HRef b" "resolve h u p = Some (HRef b)"
          unfolding all_refs_def by blast
        moreover have "(k, u) \<in> set ((k, u) # rest)" by simp
        ultimately show ?thesis unfolding entry_refs_def by blast
      next
        assume "w \<in> entry_refs h rest"
        then obtain b k1 u1 p where "w = HRef b" "(k1, u1) \<in> set rest"
          "resolve h u1 p = Some (HRef b)"
          unfolding entry_refs_def by blast
        moreover then have "(k1, u1) \<in> set ((k, u) # rest)" by simp
        ultimately show ?thesis unfolding entry_refs_def by blast
      qed
    qed
  qed
  show "entries_null h ((k, u) # rest) = (null_from h u \<or> entries_null h rest)"
  proof
    assume "entries_null h ((k, u) # rest)"
    then obtain k1 u1 p where m: "(k1, u1) \<in> set ((k, u) # rest)"
      and r: "resolve h u1 p = Some HNull"
      unfolding entries_null_def by blast
    from m have "(k1, u1) = (k, u) \<or> (k1, u1) \<in> set rest" by simp
    then show "null_from h u \<or> entries_null h rest"
    proof
      assume "(k1, u1) = (k, u)"
      with r show ?thesis unfolding null_from_def by blast
    next
      assume "(k1, u1) \<in> set rest"
      with r show ?thesis unfolding entries_null_def by blast
    qed
  next
    assume "null_from h u \<or> entries_null h rest"
    then show "entries_null h ((k, u) # rest)"
    proof
      assume "null_from h u"
      then obtain p where "resolve h u p = Some HNull" unfolding null_from_def by blast
      moreover have "(k, u) \<in> set ((k, u) # rest)" by simp
      ultimately show ?thesis unfolding entries_null_def by blast
    next
      assume "entries_null h rest"
      then obtain k1 u1 p where "(k1, u1) \<in> set rest" "resolve h u1 p = Some HNull"
        unfolding entries_null_def by blast
      moreover then have "(k1, u1) \<in> set ((k, u) # rest)" by simp
      ultimately show ?thesis unfolding entries_null_def by blast
    qed
  qed
qed

lemma entries_twice_Cons:
  assumes k: "k \<notin> fst ` set rest"
  shows "entries_twice h ((k, u) # rest)
           = (twice_from h u \<or> all_refs h u \<inter> entry_refs h rest \<noteq> {} \<or> entries_twice h rest)"
proof
  assume "entries_twice h ((k, u) # rest)"
  then obtain k1 u1 p k2 u2 q b where
    m1: "(k1, u1) \<in> set ((k, u) # rest)" and m2: "(k2, u2) \<in> set ((k, u) # rest)"
    and ne: "(k1, p) \<noteq> (k2, q)"
    and r1: "resolve h u1 p = Some (HRef b)" and r2: "resolve h u2 q = Some (HRef b)"
    unfolding entries_twice_def by blast
  from m1 have c1: "(k1, u1) = (k, u) \<or> (k1, u1) \<in> set rest" by simp
  from m2 have c2: "(k2, u2) = (k, u) \<or> (k2, u2) \<in> set rest" by simp
  show "twice_from h u \<or> all_refs h u \<inter> entry_refs h rest \<noteq> {} \<or> entries_twice h rest"
  proof (cases "(k1, u1) = (k, u)")
    case True
    note h1 = this
    show ?thesis
    proof (cases "(k2, u2) = (k, u)")
      case True
      with h1 ne have "p \<noteq> q" by auto
      with h1 True r1 r2 have "twice_from h u" unfolding twice_from_def by blast
      then show ?thesis by simp
    next
      case False
      with c2 have "(k2, u2) \<in> set rest" by blast
      with r2 have "HRef b \<in> entry_refs h rest" unfolding entry_refs_def by blast
      moreover from h1 r1 have "HRef b \<in> all_refs h u" unfolding all_refs_def by blast
      ultimately show ?thesis by blast
    qed
  next
    case False
    with c1 have i1: "(k1, u1) \<in> set rest" by blast
    show ?thesis
    proof (cases "(k2, u2) = (k, u)")
      case True
      with r2 have "HRef b \<in> all_refs h u" unfolding all_refs_def by blast
      moreover from i1 r1 have "HRef b \<in> entry_refs h rest" unfolding entry_refs_def by blast
      ultimately show ?thesis by blast
    next
      case False
      with c2 have "(k2, u2) \<in> set rest" by blast
      with i1 ne r1 r2 have "entries_twice h rest" unfolding entries_twice_def by blast
      then show ?thesis by simp
    qed
  qed
next
  assume "twice_from h u \<or> all_refs h u \<inter> entry_refs h rest \<noteq> {} \<or> entries_twice h rest"
  then consider (a) "twice_from h u" | (b) "all_refs h u \<inter> entry_refs h rest \<noteq> {}"
    | (c) "entries_twice h rest" by blast
  then show "entries_twice h ((k, u) # rest)"
  proof cases
    case a
    then obtain p q b where "p \<noteq> q" "resolve h u p = Some (HRef b)"
      "resolve h u q = Some (HRef b)" unfolding twice_from_def by blast
    then show ?thesis unfolding entries_twice_def
      by (intro exI[of _ k] exI[of _ u] exI[of _ p] exI[of _ q] exI[of _ b]) simp
  next
    case b
    then obtain w where w1: "w \<in> all_refs h u" and w2: "w \<in> entry_refs h rest" by blast
    from w1 obtain b p where w: "w = HRef b" and r1: "resolve h u p = Some (HRef b)"
      unfolding all_refs_def by blast
    from w2 w obtain k2 u2 q where m: "(k2, u2) \<in> set rest"
      and r2: "resolve h u2 q = Some (HRef b)"
      unfolding entry_refs_def by blast
    from m k have "k \<noteq> k2" by force
    with m r1 r2 show ?thesis unfolding entries_twice_def
      by (intro exI[of _ k] exI[of _ u] exI[of _ p] exI[of _ k2] exI[of _ u2] exI[of _ q]
                exI[of _ b]) simp
  next
    case c
    then obtain k1 u1 p k2 u2 q b where "(k1, u1) \<in> set rest" "(k2, u2) \<in> set rest"
      "(k1, p) \<noteq> (k2, q)" "resolve h u1 p = Some (HRef b)" "resolve h u2 q = Some (HRef b)"
      unfolding entries_twice_def by blast
    then show ?thesis unfolding entries_twice_def
      by (intro exI[of _ k1] exI[of _ u1] exI[of _ p] exI[of _ k2] exI[of _ u2] exI[of _ q]
                exI[of _ b]) simp
  qed
qed

lemma from_nonref:
  assumes "\<forall>b. u \<noteq> HRef b"
  shows "all_refs h u = {}" "\<not> twice_from h u" "null_from h u = (u = HNull)"
proof -
  have nr: "\<And>p w. resolve h u p = Some w \<Longrightarrow> p = [] \<and> w = u"
    using resolve_nonref[OF assms] by blast
  show "all_refs h u = {}" unfolding all_refs_def using nr assms by blast
  show "\<not> twice_from h u" unfolding twice_from_def using nr by blast
  show "null_from h u = (u = HNull)"
  proof
    assume "null_from h u" then show "u = HNull" unfolding null_from_def using nr by force
  next
    assume "u = HNull"
    then have "resolve h u [] = Some HNull" by simp
    then show "null_from h u" unfolding null_from_def by blast
  qed
qed

lemma from_ref:
  shows "all_refs h (HRef b) = insert (HRef b) (refs_below h (HRef b))"
    and "null_from h (HRef b) = meets_null h (HRef b)"
    and "twice_from h (HRef b) = (met_twice h (HRef b) \<or> HRef b \<in> refs_below h (HRef b))"
proof -
  show "all_refs h (HRef b) = insert (HRef b) (refs_below h (HRef b))"
  proof (rule set_eqI)
    fix w
    show "(w \<in> all_refs h (HRef b)) = (w \<in> insert (HRef b) (refs_below h (HRef b)))"
    proof
      assume "w \<in> all_refs h (HRef b)"
      then obtain c p where w: "w = HRef c" and r: "resolve h (HRef b) p = Some (HRef c)"
        unfolding all_refs_def by blast
      show "w \<in> insert (HRef b) (refs_below h (HRef b))"
      proof (cases "p = []")
        case True with r w show ?thesis by simp
      next
        case False with r w show ?thesis unfolding refs_below_def by blast
      qed
    next
      assume "w \<in> insert (HRef b) (refs_below h (HRef b))"
      then have "w = HRef b \<or> w \<in> refs_below h (HRef b)" by simp
      then show "w \<in> all_refs h (HRef b)"
      proof
        assume "w = HRef b"
        moreover have "resolve h (HRef b) [] = Some (HRef b)" by simp
        ultimately show ?thesis unfolding all_refs_def by blast
      next
        assume "w \<in> refs_below h (HRef b)"
        then show ?thesis unfolding all_refs_def refs_below_def by blast
      qed
    qed
  qed
  show "null_from h (HRef b) = meets_null h (HRef b)"
  proof
    assume "null_from h (HRef b)"
    then obtain p where r: "resolve h (HRef b) p = Some HNull" unfolding null_from_def by blast
    then have "p \<noteq> []" by (cases p) auto
    with r show "meets_null h (HRef b)" unfolding meets_null_def by blast
  next
    assume "meets_null h (HRef b)"
    then show "null_from h (HRef b)" unfolding null_from_def meets_null_def by blast
  qed
  show "twice_from h (HRef b) = (met_twice h (HRef b) \<or> HRef b \<in> refs_below h (HRef b))"
  proof
    assume "twice_from h (HRef b)"
    then obtain p q c where pq: "p \<noteq> q" and r1: "resolve h (HRef b) p = Some (HRef c)"
      and r2: "resolve h (HRef b) q = Some (HRef c)" unfolding twice_from_def by blast
    show "met_twice h (HRef b) \<or> HRef b \<in> refs_below h (HRef b)"
    proof (cases "p = []")
      case True
      with r1 have cb: "c = b" by simp
      from True pq have "q \<noteq> []" by simp
      with r2 cb have "HRef b \<in> refs_below h (HRef b)" unfolding refs_below_def by blast
      then show ?thesis by simp
    next
      case False
      note pn = this
      show ?thesis
      proof (cases "q = []")
        case True
        with r2 have cb: "c = b" by simp
        with r1 pn have "HRef b \<in> refs_below h (HRef b)" unfolding refs_below_def by blast
        then show ?thesis by simp
      next
        case False
        with pn pq r1 r2 have "met_twice h (HRef b)" unfolding met_twice_def by blast
        then show ?thesis by simp
      qed
    qed
  next
    assume "met_twice h (HRef b) \<or> HRef b \<in> refs_below h (HRef b)"
    then show "twice_from h (HRef b)"
    proof
      assume "met_twice h (HRef b)"
      then show ?thesis unfolding met_twice_def twice_from_def by blast
    next
      assume "HRef b \<in> refs_below h (HRef b)"
      then obtain p where "p \<noteq> []" "resolve h (HRef b) p = Some (HRef b)"
        unfolding refs_below_def by blast
      moreover have "resolve h (HRef b) [] = Some (HRef b)" by simp
      ultimately show ?thesis unfolding twice_from_def
        by (intro exI[of _ p] exI[of _ "[]"] exI[of _ b]) simp
    qed
  qed
qed

lemma good_split_sets:
  "u \<notin> R \<Longrightarrow>
     (\<not> (N1 \<or> N2) \<and> \<not> ((T1 \<or> u \<in> B) \<or> insert u B \<inter> E \<noteq> {} \<or> T2) \<and> (insert u B \<union> E) \<inter> R = {})
     = ((\<not> N1 \<and> \<not> T1 \<and> B \<inter> insert u R = {}) \<and> (\<not> N2 \<and> \<not> T2 \<and> E \<inter> (insert u R \<union> B) = {}))"
  by blast

lemma good_es_ref:
  assumes "k \<notin> fst ` set rest" "HRef b \<notin> set refs" "set r1 = set (HRef b # refs) \<union> refs_below h (HRef b)"
  shows "good_es h refs ((k, HRef b) # rest) = (good_h h (HRef b # refs) (HRef b) \<and> good_es h r1 rest)"
  unfolding good_es_def good_h_def entries_Cons entries_twice_Cons[OF assms(1)] from_ref assms(3)
  using good_split_sets[OF assms(2)] by simp

lemma good_es_ref_only:
  assumes "k \<notin> fst ` set rest" "HRef b \<notin> set refs"
  shows "good_es h refs ((k, HRef b) # rest) \<Longrightarrow> good_h h (HRef b # refs) (HRef b)"
  unfolding good_es_def good_h_def entries_Cons entries_twice_Cons[OF assms(1)] from_ref
  using assms(2) by auto

lemma good_es_nonref:
  assumes "k \<notin> fst ` set rest" "\<forall>b. u \<noteq> HRef b" "u \<noteq> HNull"
  shows "good_es h refs ((k, u) # rest) = good_es h refs rest"
    and "entries_null h ((k, u) # rest) = entries_null h rest"
    and "entry_refs h ((k, u) # rest) = entry_refs h rest"
  unfolding good_es_def entries_Cons entries_twice_Cons[OF assms(1)]
  using from_nonref[OF assms(2), of h] assms(3) by simp_all

lemma clone_char:
  "wf_heap h \<Longrightarrow> ref_ok h source \<Longrightarrow> htypeof source = ''object'' \<Longrightarrow> source \<noteq> HNull \<Longrightarrow>
     (good_h h refs source \<longrightarrow>
        (\<exists>c out' refs'. clone_h h refs out source = Inr (c, out', refs')
           \<and> set refs' = set refs \<union> refs_below h source))
     \<and> (\<not> good_h h refs source \<longrightarrow>
        (\<exists>e. clone_h h refs out source = Inl e
           \<and> (\<not> meets_null h source \<longrightarrow> e = Throw ''Circular reference'')))"
  "wf_heap h \<Longrightarrow> list_all (ref_ok h) (map snd es) \<Longrightarrow> distinct (map fst es) \<Longrightarrow>
     (good_es h refs es \<longrightarrow>
        (\<exists>result' out' refs'. clone_loop h refs out result es = Inr (result', out', refs')
           \<and> set refs' = set refs \<union> entry_refs h es))
     \<and> (\<not> good_es h refs es \<longrightarrow>
        (\<exists>e. clone_loop h refs out result es = Inl e
           \<and> (\<not> entries_null h es \<longrightarrow> e = Throw ''Circular reference'')))"
proof (induction h refs out source and h refs out result es
       rule: clone_h_clone_loop.induct)
  case (1 h refs out source)
  from "1.prems"(3,4) obtain a where src: "source = HRef a" by (cases source) auto
  with "1.prems"(2) have "a < length h" by simp
  then obtain ob where lk: "lookup h a = Some ob" by (simp add: lookup_def)
  show ?case
  proof (cases ob)
    case (HArray xs)
    note ba = below_array[OF lk[unfolded HArray]]
    have "clone_h h refs out source = Inr (HRef (length h + length out), out @ [HArray xs], refs)"
      using src lk HArray by (simp add: clone_h.simps)
    moreover have "good_h h refs source" unfolding good_h_def src using ba by simp
    ultimately show ?thesis using ba(1) src by simp
  next
    case (HObject kvs)
    have wfo: "distinct (map fst kvs)" "list_all (ref_ok h) (map snd kvs)"
      using wf_heap_object[OF "1.prems"(1) lk[unfolded HObject]] by simp_all
    note bo = below_object[OF lk[unfolded HObject] wfo(1)]
    have g: "good_h h refs source = good_es h refs kvs"
      unfolding good_h_def good_es_def src bo by simp
    note ih = "1.IH"[OF src lk HObject "1.prems"(1) wfo(2) wfo(1)]
    have eq: "clone_h h refs out source =
        (case clone_loop h refs (out @ [HObject []]) [] kvs of
           Inl e \<Rightarrow> Inl e
         | Inr (result, out', refs') \<Rightarrow>
             Inr (HRef (length h + length out), out'[length out := HObject result], refs'))"
      using src lk HObject by (simp add: clone_h.simps)
    show ?thesis
    proof (cases "good_es h refs kvs")
      case True
      with ih obtain res o1 r1 where
        "clone_loop h refs (out @ [HObject []]) [] kvs = Inr (res, o1, r1)"
        "set r1 = set refs \<union> entry_refs h kvs" by blast
      then show ?thesis using True g eq bo(1) src by simp
    next
      case False
      with ih obtain e where
        "clone_loop h refs (out @ [HObject []]) [] kvs = Inl e"
        "\<not> entries_null h kvs \<longrightarrow> e = Throw ''Circular reference''" by blast
      then show ?thesis using False g eq bo(2) src by simp
    qed
  qed
next
  case (2 h refs out result)
  have "good_es h refs []"
    unfolding good_es_def entries_null_def entries_twice_def entry_refs_def by simp
  moreover have "entry_refs h [] = {}" unfolding entry_refs_def by simp
  ultimately show ?case by simp
next
  case (3 h refs out result key v rest)
  have krest: "key \<notin> fst ` set rest" and drest: "distinct (map fst rest)"
    and okv: "ref_ok h v" and okrest: "list_all (ref_ok h) (map snd rest)"
    using "3.prems"(2,3) by auto
  show ?case
  proof (cases "htypeof v = ''object''")
    case True
    note obj = this
    then have "v = HNull \<or> (\<exists>b. v = HRef b)" by (cases v) auto
    then show ?thesis
    proof
      assume vn: "v = HNull"
      have "clone_loop h refs out result ((key, v) # rest) = Inl TypeError"
        using vn by (simp add: clone_h.simps)
      moreover have "entries_null h ((key, v) # rest)"
        unfolding entries_Cons null_from_def vn by (intro disjI1 exI[of _ "[]"]) simp
      moreover then have "\<not> good_es h refs ((key, v) # rest)" unfolding good_es_def by simp
      ultimately show ?thesis by simp
    next
      assume "\<exists>b. v = HRef b"
      then obtain b where vb: "v = HRef b" by blast
      show ?thesis
      proof (cases "v \<in> set refs")
        case True
        have "clone_loop h refs out result ((key, v) # rest) = Inl (Throw ''Circular reference'')"
          using True vb by simp
        moreover have "v \<in> entry_refs h ((key, v) # rest)"
          unfolding entries_Cons vb from_ref by simp
        then have "\<not> good_es h refs ((key, v) # rest)"
          unfolding good_es_def using True by blast
        ultimately show ?thesis by simp
      next
        case False
        then have nc: "\<not> (v \<noteq> HNull \<and> v \<in> set refs)" by simp
        have nin: "HRef b \<notin> set refs" using False vb by simp
        have vnn: "v \<noteq> HNull" using vb by simp
        note ih1 = "3.IH"(1)[OF obj nc "3.prems"(1) okv obj vnn]
        have unf: "clone_loop h refs out result ((key, v) # rest) =
           (case clone_h h (v # refs) out v of
              Inl e \<Rightarrow> Inl e
            | Inr (c, out', refs') \<Rightarrow> clone_loop h refs' out' (AList.update key c result) rest)"
          using obj nc by auto
        have en: "entries_null h ((key, v) # rest) = (meets_null h v \<or> entries_null h rest)"
          unfolding entries_Cons vb from_ref by simp
        show ?thesis
        proof (cases "good_h h (v # refs) v")
          case True
          with ih1 obtain c1 o1 r1 where
            a: "clone_h h (v # refs) out v = Inr (c1, o1, r1)" and
            s1: "set r1 = set (v # refs) \<union> refs_below h v" by blast
          note ih2 = "3.IH"(2)[OF obj nc a refl refl "3.prems"(1) okrest drest]
          have ge: "good_es h refs ((key, v) # rest) = good_es h r1 rest"
            using good_es_ref[OF krest nin s1[unfolded vb]] True unfolding vb by simp
          have lp: "clone_loop h refs out result ((key, v) # rest)
                      = clone_loop h r1 o1 (AList.update key c1 result) rest"
            unfolding unf a by simp
          have er: "set r1 \<union> entry_refs h rest = set refs \<union> entry_refs h ((key, v) # rest)"
            unfolding s1 entries_Cons vb from_ref by auto
          have mn: "\<not> meets_null h v" using True unfolding good_h_def by simp
          show ?thesis
            unfolding lp ge en using ih2 er mn by simp
        next
          case False
          with ih1 obtain e where
            a: "clone_h h (v # refs) out v = Inl e" and
            c: "\<not> meets_null h v \<longrightarrow> e = Throw ''Circular reference''" by blast
          have "\<not> good_es h refs ((key, v) # rest)"
            using good_es_ref_only[OF krest nin] False unfolding vb by blast
          moreover have "clone_loop h refs out result ((key, v) # rest) = Inl e"
            unfolding unf a by simp
          ultimately show ?thesis using c en by simp
        qed
      qed
    qed
  next
    case False
    note nobj = this
    then have nr: "\<forall>b. v \<noteq> HRef b" and nn: "v \<noteq> HNull" by auto
    note gn = good_es_nonref[OF krest nr nn]
    show ?thesis
    proof (cases "htypeof v = ''function''")
      case True
      have "clone_loop h refs out result ((key, v) # rest) = clone_loop h refs out result rest"
        using nobj True by simp
      then show ?thesis
        unfolding gn using "3.IH"(4)[OF nobj _ "3.prems"(1) okrest drest] True by simp
    next
      case False
      have "clone_loop h refs out result ((key, v) # rest)
              = clone_loop h refs out (AList.update key v result) rest"
        using nobj False by simp
      then show ?thesis
        unfolding gn using "3.IH"(3)[OF nobj False "3.prems"(1) okrest drest] by simp
    qed
  qed
qed









lemma clone_top_success_iff:
  assumes "wf_heap h" "a < length h"
  shows "(\<exists>c h'. clone_top h (HRef a) = Inr (c, h'))
           = (\<not> meets_null h (HRef a) \<and> \<not> met_twice h (HRef a))"
proof -
  have g: "good_h h [] (HRef a) = (\<not> meets_null h (HRef a) \<and> \<not> met_twice h (HRef a))"
    by (simp add: good_h_def)
  note cc = clone_char(1)[OF assms(1), of "HRef a" "[]" "[]", simplified, OF assms(2)]
  show ?thesis
  proof (cases "good_h h [] (HRef a)")
    case True
    with cc obtain c out' refs' where "clone_h h [] [] (HRef a) = Inr (c, out', refs')" by blast
    then have "clone_top h (HRef a) = Inr (c, h @ out')" by (simp add: clone_top_def)
    with True g show ?thesis by blast
  next
    case False
    with cc obtain e where "clone_h h [] [] (HRef a) = Inl e" by blast
    then have "clone_top h (HRef a) = Inl e" by (simp add: clone_top_def)
    with False g show ?thesis by simp
  qed
qed

lemma clone_top_circular_iff:
  assumes "wf_heap h" "a < length h" "\<not> meets_null h (HRef a)"
  shows "(clone_top h (HRef a) = Inl (Throw ''Circular reference'')) = met_twice h (HRef a)"
proof -
  have g: "good_h h [] (HRef a) = (\<not> met_twice h (HRef a))"
    using assms(3) by (simp add: good_h_def)
  note cc = clone_char(1)[OF assms(1), of "HRef a" "[]" "[]", simplified, OF assms(2)]
  show ?thesis
  proof (cases "good_h h [] (HRef a)")
    case True
    with cc obtain c out' refs' where "clone_h h [] [] (HRef a) = Inr (c, out', refs')" by blast
    then have "clone_top h (HRef a) = Inr (c, h @ out')" by (simp add: clone_top_def)
    with True g show ?thesis by simp
  next
    case False
    with cc assms(3) have "clone_h h [] [] (HRef a) = Inl (Throw ''Circular reference'')" by blast
    then have "clone_top h (HRef a) = Inl (Throw ''Circular reference'')"
      by (simp add: clone_top_def)
    with False g show ?thesis by simp
  qed
qed







subsection \<open>Further properties of the code\<close>

text \<open>
  What \<open>Nullable.validate\<close> computes: \<open>null\<close> is accepted when the null flag is
  set; apart from \<open>null\<close>, the one value accepted is \<open>true\<close>, when the undefined flag
  is set.
\<close>

theorem Nullable_validate_code:
  "valid (validate (Nullable d this_null this_undefined) v)
     = (if v = Null then this_null else (this_undefined \<and> v = Bool True))"
  by (auto simp: createValidatingResult_def)

text \<open>
  A constructor that ends in \<open>_validateDefaultValue(this)\<close> (Boolean, String, Number,
  List, Union, and Nullable with a \<open>defaultValue\<close> option) returns only an object whose
  default value passes its own \<open>validate\<close>.
\<close>

theorem validateDefaultValue_invariant:
  "validateDefaultValue t = Inr t' \<Longrightarrow> t' = t \<and> valid (validate t (defaultValue t))"
  by (auto simp: validateDefaultValue_def split: if_splits)

lemma createDefaultDictionary_loop_fresh:
  "distinct (map fst ts) \<Longrightarrow> fst ` set ts \<inter> fst ` set acc = {} \<Longrightarrow>
     createDefaultDictionary_loop acc ts = acc @ map (\<lambda>(k, t). (k, defaultValue t)) ts"
proof (induction ts arbitrary: acc)
  case Nil
  show ?case by simp
next
  case (Cons e ts)
  obtain k t where e: "e = (k, t)" by (cases e)
  have fresh: "k \<notin> fst ` set acc" using Cons.prems(2) e by auto
  have up: "AList.update k (defaultValue t) acc = acc @ [(k, defaultValue t)]"
    using fresh by (induction acc) auto
  have "createDefaultDictionary_loop (acc @ [(k, defaultValue t)]) ts
          = (acc @ [(k, defaultValue t)]) @ map (\<lambda>(k, t). (k, defaultValue t)) ts"
    by (rule Cons.IH) (use Cons.prems e in auto)
  then show ?case by (simp add: e up)
qed

lemma validate_entries_defaults:
  assumes "\<forall>(k, t) \<in> set ts. valid (validate t (defaultValue t))"
    and "\<forall>(k, t) \<in> set ts. map_of kvs k = Some (defaultValue t)"
  shows "validate_entries ts (Obj kvs) = []"
  using assms
proof (induction ts)
  case Nil
  show ?case by simp
next
  case (Cons e ts)
  obtain k t where e: "e = (k, t)" by (cases e)
  have "valid (validate t (defaultValue t))" "map_of kvs k = Some (defaultValue t)"
    using Cons.prems e by auto
  then have "validate t (js_get (Obj kvs) k) = Valid"
    by (cases "validate t (defaultValue t)") simp_all
  moreover have "validate_entries ts (Obj kvs) = []"
    by (rule Cons.IH) (use Cons.prems in auto)
  ultimately show ?case by (simp add: e)
qed

text \<open>
  The Dictionary constructor validates nothing, and its default value passes all the
  same: when the default of every field type passes that type's \<open>validate\<close> (and the
  field names are distinct, as the keys of an object are), the default dictionary
  passes; so does the empty object of a Dictionary without field mapping.
\<close>

theorem Dictionary_default_valid:
  assumes "distinct (map fst ts)"
    and "\<forall>(k, t) \<in> set ts. valid (validate t (defaultValue t))"
  shows "validate (new_Dictionary (Some ts)) (defaultValue (new_Dictionary (Some ts))) = Valid
         \<and> validate (new_Dictionary None) (defaultValue (new_Dictionary None)) = Valid"
proof -
  let ?kvs = "map (\<lambda>(k, t). (k, defaultValue t)) ts"
  have d: "createDefaultDictionary ts = Obj ?kvs"
    using createDefaultDictionary_loop_fresh[OF assms(1), of "[]"]
    by (simp add: createDefaultDictionary_def)
  have dk: "distinct (map fst ?kvs)" using assms(1) by (simp add: case_prod_unfold comp_def)
  have m: "\<forall>(k, t) \<in> set ts. map_of ?kvs k = Some (defaultValue t)"
  proof (clarify)
    fix k t assume "(k, t) \<in> set ts"
    then have "(k, defaultValue t) \<in> set ?kvs" by force
    then show "map_of ?kvs k = Some (defaultValue t)"
      using map_of_eq_Some_iff[OF dk] by blast
  qed
  have ve: "validate_entries ts (Obj ?kvs) = []"
    by (rule validate_entries_defaults[OF assms(2) m])
  have keys: "filter (\<lambda>key. \<not> key_in key ts) (map fst ?kvs) = []"
    by (force simp: filter_empty_conv key_in_def map_of_eq_None_iff)
  have "validate (new_Dictionary (Some ts)) (defaultValue (new_Dictionary (Some ts))) = Valid"
    by (simp add: new_Dictionary_def d ve keys createValidatingResult_def del: map_map)
  moreover have "validate (new_Dictionary None) (defaultValue (new_Dictionary None)) = Valid"
    by (simp add: new_Dictionary_def createValidatingResult_def)
  ultimately show ?thesis by simp
qed

text \<open>
  The number type of the demo schema's \<open>version\<close> field.
\<close>

theorem validateDefaultValue_invariant_witness:
  "validateDefaultValue (Number (Num (Fin 1)) (Fin 0) PosInf True)
     = Inr (Number (Num (Fin 1)) (Fin 0) PosInf True)
   \<and> valid (validate (Number (Num (Fin 1)) (Fin 0) PosInf True)
              (defaultValue (Number (Num (Fin 1)) (Fin 0) PosInf True)))"
proof -
  have e: "validateDefaultValue (Number (Num (Fin 1)) (Fin 0) PosInf True)
             = Inr (Number (Num (Fin 1)) (Fin 0) PosInf True)"
    by (simp add: validateDefaultValue_def createValidatingResult_def num_ge_def trunc_def)
  from validateDefaultValue_invariant[OF e] e show ?thesis by blast
qed

text \<open>
  The schema of the demo page.
\<close>

theorem Dictionary_default_valid_witness:
  "validate
     (new_Dictionary (Some
        [(''version'', Number (Num (Fin 1)) (Fin 0) PosInf True),
         (''str'', String (Str ''Hello, world!'') (Fin 0) PosInf None),
         (''n'', Number (Num (Fin 0)) NegInf PosInf False)]))
     (defaultValue (new_Dictionary (Some
        [(''version'', Number (Num (Fin 1)) (Fin 0) PosInf True),
         (''str'', String (Str ''Hello, world!'') (Fin 0) PosInf None),
         (''n'', Number (Num (Fin 0)) NegInf PosInf False)]))) = Valid"
proof -
  let ?ts = "[(''version'', Number (Num (Fin 1)) (Fin 0) PosInf True),
        (''str'', String (Str ''Hello, world!'') (Fin 0) PosInf None),
        (''n'', Number (Num (Fin 0)) NegInf PosInf False)]"
  have d: "distinct (map fst ?ts)" by simp
  have v: "\<forall>(k, t) \<in> set ?ts. valid (validate t (defaultValue t))"
    by (simp add: createValidatingResult_def num_ge_def trunc_def)
  from Dictionary_default_valid[OF d v, THEN conjunct1]
  show ?thesis .
qed

text \<open>
  What \<open>Dictionary.validate(v)\<close> reports on a plain schema. A value that is not a
  non-null object is invalid at the root path alone. On a non-null object and a field
  mapping, the reported paths are, as a set, the single-key paths of the keys of \<open>v\<close>
  that are neither a field of the mapping nor a name of \<open>Object.prototype\<close>, together
  with the paths each field's type reports on \<open>v[key]\<close>, prefixed with the key; the
  result is valid exactly when that set is empty. Without a field mapping every non-null
  object is valid.
\<close>

theorem Dictionary_validate_reports:
  assumes "plain_fields ts"
  shows
  "(\<not> (typeof v = ''object'' \<and> v \<noteq> Null) \<longrightarrow> validate (Dictionary d tys) v = Invalid [[]])
   \<and> (typeof v = ''object'' \<and> v \<noteq> Null \<longrightarrow>
        failing (validate (Dictionary d (Some ts)) v) =
          {[key] | key. key \<in> set (Object_keys v) \<and> key \<notin> fst ` set ts
                         \<and> key \<notin> set Object_prototype_names}
          \<union> {key # path | key t path.
               (key, t) \<in> set ts \<and> path \<in> failing (validate t (js_get v key))}
        \<and> (valid (validate (Dictionary d (Some ts)) v) =
             ({[key] | key. key \<in> set (Object_keys v) \<and> key \<notin> fst ` set ts
                            \<and> key \<notin> set Object_prototype_names}
              \<union> {key # path | key t path.
                   (key, t) \<in> set ts \<and> path \<in> failing (validate t (js_get v key))} = {}))
        \<and> validate (Dictionary d None) v = Valid)"
proof (intro conjI impI)
  assume "\<not> (typeof v = ''object'' \<and> v \<noteq> Null)"
  then show "validate (Dictionary d tys) v = Invalid [[]]"
    by (cases v) (simp_all add: createValidatingResult_def)
next
  assume obj: "typeof v = ''object'' \<and> v \<noteq> Null"
  then have c: "truthy v \<and> typeof v = ''object''" using object_condition by blast
  let ?unknown = "map (\<lambda>key. [key]) (filter (\<lambda>key. \<not> key_in key ts) (Object_keys v))"
  let ?paths = "?unknown @ validate_entries ts v"
  let ?P = "{[key] | key. key \<in> set (Object_keys v) \<and> key \<notin> fst ` set ts
                          \<and> key \<notin> set Object_prototype_names}
          \<union> {key # path | key t path.
               (key, t) \<in> set ts \<and> path \<in> failing (validate t (js_get v key))}"
  have res: "validate (Dictionary d (Some ts)) v = createValidatingResult (?paths = []) (Some ?paths)"
    using c by (simp add: Let_def)
  have u: "set ?unknown = {[key] | key. key \<in> set (Object_keys v) \<and> key \<notin> fst ` set ts
                          \<and> key \<notin> set Object_prototype_names}"
    by (auto simp: key_in_iff)
  have sp: "set ?paths = ?P"
    unfolding set_append u set_validate_entries ..
  show f: "failing (validate (Dictionary d (Some ts)) v) = ?P"
    unfolding res failing_createValidatingResult by (rule sp)
  have "(?paths = []) = (set ?paths = {})" by (simp only: set_empty)
  then have "(?paths = []) = (?P = {})"
    by (simp only: sp)
  then show "valid (validate (Dictionary d (Some ts)) v) = (?P = {})"
    unfolding res valid_createValidatingResult .
  show "validate (Dictionary d None) v = Valid"
    using c by (simp add: createValidatingResult_def)
qed

text \<open>The theorem at a schema with one number field \<open>n\<close>: \<open>null\<close> fails at the root;
  the object \<open>{n: "x", foo: null, valueOf: 1}\<close> fails at \<open>foo\<close> (unknown) and at
  \<open>n\<close>, and not at \<open>valueOf\<close>; without a mapping the object passes.\<close>

theorem Dictionary_validate_reports_witness:
  "validate (Dictionary (Obj []) (Some [(''n'', Number (Num (Fin 0)) NegInf PosInf False)])) Null
     = Invalid [[]]
   \<and> failing (validate (Dictionary (Obj []) (Some [(''n'', Number (Num (Fin 0)) NegInf PosInf False)]))
              (Obj [(''n'', Str ''x''), (''foo'', Null), (''valueOf'', Num (Fin 1))]))
     = {[''foo''], [''n'']}
   \<and> validate (Dictionary (Obj []) None)
        (Obj [(''n'', Str ''x''), (''foo'', Null), (''valueOf'', Num (Fin 1))]) = Valid"
proof -
  let ?ts = "[(''n'', Number (Num (Fin 0)) NegInf PosInf False)]"
  let ?v = "Obj [(''n'', Str ''x''), (''foo'', Null), (''valueOf'', Num (Fin 1))]"
  have pl: "plain_fields ?ts"
    by (simp add: inherited_names_def Object_prototype_names_def Array_prototype_names_def)
  have a: "\<not> (typeof Null = ''object'' \<and> Null \<noteq> Null)" by simp
  have b: "typeof ?v = ''object'' \<and> ?v \<noteq> Null" by simp
  note t1 = Dictionary_validate_reports [OF pl, of Null "Obj []" "Some ?ts"]
  note t2 = Dictionary_validate_reports [OF pl, of ?v "Obj []" None]
  note r = t2 [THEN conjunct2, THEN mp, OF b]
  have c1: "validate (Dictionary (Obj []) (Some ?ts)) Null = Invalid [[]]"
    by (rule t1 [THEN conjunct1, THEN mp, OF a])
  have k: "{[key] | key. key \<in> set (Object_keys ?v) \<and> key \<notin> fst ` set ?ts
                          \<and> key \<notin> set Object_prototype_names} = {[''foo'']}"
    by (auto simp: Object_prototype_names_def)
  have e: "{key # path | key t path.
               (key, t) \<in> set ?ts \<and> path \<in> failing (validate t (js_get ?v key))} = {[''n'']}"
    by (auto simp: failing_def createValidatingResult_def)
  have ke: "{[''foo'']} \<union> {[''n'']} = {[''foo''], [''n'']}" by auto
  have c2: "failing (validate (Dictionary (Obj []) (Some ?ts)) ?v) = {[''foo''], [''n'']}"
    by (rule trans[OF r [THEN conjunct1, unfolded k e] ke])
  have c4: "validate (Dictionary (Obj []) None) ?v = Valid"
    by (rule r [THEN conjunct2, THEN conjunct2])
  show ?thesis by (intro conjI c1 c2 c4)
qed

text \<open>
  \<open>load\<close> clones the default value first. When the default is an object with a
  property that is \<open>null\<close>, \<open>_clone\<close> runs \<open>Object.entries(null)\<close> on it (unless
  it has thrown before), and \<open>load\<close> throws, whatever the source: a store whose schema
  has a Nullable field with the default \<open>null\<close> cannot load.
\<close>

theorem load_throws_on_null_default:
  assumes "wf_heap (s_heap st)"
    and "s_defaultValue st = HRef a"
    and "lookup (s_heap st) a = Some (HObject kvs)"
    and "map_of kvs k = Some HNull"
  shows "\<exists>e. load parse stringify st source = (Inl e, st)"
proof -
  have a: "a < length (s_heap st)" using assms(3) by (auto simp: lookup_def split: if_splits)
  have "resolve (s_heap st) (HRef a) [k] = Some HNull"
    using assms(3,4) by simp
  then have "meets_null (s_heap st) (HRef a)"
    unfolding meets_null_def by (intro exI[of _ "[k]"]) simp
  then have "\<not> (\<exists>c h'. clone_top (s_heap st) (HRef a) = Inr (c, h'))"
    using clone_top_success_iff[OF assms(1) a] by simp
  then obtain e where "clone_top (s_heap st) (HRef a) = Inl e"
    by (cases "clone_top (s_heap st) (HRef a)") auto
  then have "getDefaultValue st = Inl e"
    by (simp add: getDefaultValue_def assms(2) indexable_def)
  then show ?thesis by (simp add: load_def)
qed

text \<open>
  A store with the schema \<open>{a: nullable()}\<close>, whose default is \<open>{a: null}\<close>: \<open>load\<close>
  throws a TypeError.
\<close>

theorem load_throws_on_null_default_witness:
  "load JSON_parse_h JSON_stringify_h
     ((Store_defaults ''k'' Map.empty [HObject [(''a'', HNull)]])
        \<lparr>s_type := Some (Dictionary (HRef 0) (Some [(''a'', Nullable HNull True True)])),
         s_defaultValue := HRef 0\<rparr>) None
   = (Inl TypeError,
      (Store_defaults ''k'' Map.empty [HObject [(''a'', HNull)]])
        \<lparr>s_type := Some (Dictionary (HRef 0) (Some [(''a'', Nullable HNull True True)])),
         s_defaultValue := HRef 0\<rparr>)"
proof -
  let ?st = "(Store_defaults ''k'' Map.empty [HObject [(''a'', HNull)]])
        \<lparr>s_type := Some (Dictionary (HRef 0) (Some [(''a'', Nullable HNull True True)])),
         s_defaultValue := HRef 0\<rparr>"
  have w: "wf_heap (s_heap ?st)" by (simp add: Store_defaults_def wf_heap_def)
  have d: "s_defaultValue ?st = HRef 0" by simp
  have l: "lookup (s_heap ?st) 0 = Some (HObject [(''a'', HNull)])"
    by (simp add: Store_defaults_def lookup_def)
  have m: "map_of [(''a'', HNull)] ''a'' = Some HNull" by simp
  from load_throws_on_null_default[OF w d l m, of JSON_parse_h JSON_stringify_h None]
  obtain e where e: "load JSON_parse_h JSON_stringify_h ?st None = (Inl e, ?st)" by blast
  have c: "clone_top [HObject [(''a'', HNull)]] (HRef 0) = Inl TypeError" by code_simp
  have "fst (load JSON_parse_h JSON_stringify_h ?st None) = Inl TypeError"
    by (simp add: load_def getDefaultValue_def indexable_def Store_defaults_def c)
  with e show ?thesis by simp
qed

text \<open>
  When the default value holds one object or array under two of its properties (and no
  \<open>null\<close>), \<open>_clone\<close> takes the second meeting for a cycle, and \<open>load\<close> throws
  \<open>Circular reference\<close>, whatever the source.
\<close>

theorem load_throws_on_shared_default:
  assumes "wf_heap (s_heap st)"
    and "s_defaultValue st = HRef a"
    and "a < length (s_heap st)"
    and "\<not> meets_null (s_heap st) (HRef a)"
    and "met_twice (s_heap st) (HRef a)"
  shows "load parse stringify st source = (Inl (Throw ''Circular reference''), st)"
proof -
  have "clone_top (s_heap st) (HRef a) = Inl (Throw ''Circular reference'')"
    using clone_top_circular_iff[OF assms(1,3,4)] assms(5) by simp
  then have "getDefaultValue st = Inl (Throw ''Circular reference'')"
    by (simp add: getDefaultValue_def assms(2) indexable_def)
  then show ?thesis by (simp add: load_def)
qed

text \<open>
  The schema \<open>{a: list(), b: list()}\<close>: a \<open>list()\<close> without a default value of its
  own has the one array \<open>List.defaults.defaultValue\<close> (at address 0) as its default,
  so the default value of the schema (at address 1) holds that array under \<open>a\<close> and
  under \<open>b\<close>, and the store cannot load.
\<close>

theorem load_throws_on_shared_default_witness:
  "new_Dictionary_h (Some [(''a'', List (HRef 0) (Any HUndefined)),
                           (''b'', List (HRef 0) (Any HUndefined))]) [HArray []]
     = (Dictionary (HRef 1) (Some [(''a'', List (HRef 0) (Any HUndefined)),
                                   (''b'', List (HRef 0) (Any HUndefined))]),
        [HArray [], HObject [(''a'', HRef 0), (''b'', HRef 0)]])
   \<and> load JSON_parse_h JSON_stringify_h
     ((Store_defaults ''k'' Map.empty [HArray [], HObject [(''a'', HRef 0), (''b'', HRef 0)]])
        \<lparr>s_type := Some (Dictionary (HRef 1)
                           (Some [(''a'', List (HRef 0) (Any HUndefined)),
                                  (''b'', List (HRef 0) (Any HUndefined))])),
         s_defaultValue := HRef 1\<rparr>) (Some (Some ''{}''))
   = (Inl (Throw ''Circular reference''),
      (Store_defaults ''k'' Map.empty [HArray [], HObject [(''a'', HRef 0), (''b'', HRef 0)]])
        \<lparr>s_type := Some (Dictionary (HRef 1)
                           (Some [(''a'', List (HRef 0) (Any HUndefined)),
                                  (''b'', List (HRef 0) (Any HUndefined))])),
         s_defaultValue := HRef 1\<rparr>)"
proof -
  let ?h = "[HArray [], HObject [(''a'', HRef 0), (''b'', HRef 0)]]"
  let ?st = "(Store_defaults ''k'' Map.empty ?h)
        \<lparr>s_type := Some (Dictionary (HRef 1)
                           (Some [(''a'', List (HRef 0) (Any HUndefined)),
                                  (''b'', List (HRef 0) (Any HUndefined))])),
         s_defaultValue := HRef 1\<rparr>"
  have hp: "s_heap ?st = ?h" by (simp add: Store_defaults_def)
  have w: "wf_heap (s_heap ?st)" unfolding hp by (simp add: wf_heap_def)
  have d: "s_defaultValue ?st = HRef 1" by simp
  have a: "1 < length (s_heap ?st)" unfolding hp by simp
  have r: "resolve ?h (HRef 1) p \<noteq> Some HNull" for p
  proof (cases p)
    case Nil
    then show ?thesis by simp
  next
    case (Cons k q)
    then show ?thesis by (cases q) (auto simp: lookup_def)
  qed
  have nn: "\<not> meets_null (s_heap ?st) (HRef 1)"
    unfolding hp meets_null_def using r by blast
  have "resolve ?h (HRef 1) [''a''] = Some (HRef 0)" "resolve ?h (HRef 1) [''b''] = Some (HRef 0)"
    by (simp_all add: lookup_def)
  then have tw: "met_twice (s_heap ?st) (HRef 1)"
    unfolding hp met_twice_def
    by (intro exI[of _ "[''a'']"] exI[of _ "[''b'']"] exI[of _ 0]) simp
  have n: "new_Dictionary_h (Some [(''a'', List (HRef 0) (Any HUndefined)),
                           (''b'', List (HRef 0) (Any HUndefined))]) [HArray []]
     = (Dictionary (HRef 1) (Some [(''a'', List (HRef 0) (Any HUndefined)),
                                   (''b'', List (HRef 0) (Any HUndefined))]), ?h)"
    by (simp add: new_Dictionary_h_def)
  show ?thesis
    by (intro conjI n
          load_throws_on_shared_default[OF w d a nn tw, of JSON_parse_h JSON_stringify_h])
qed

text \<open>
  \<open>set\<close> with a one-key path whose key is not a field of the schema and is a name of
  \<open>Object.prototype\<close>: the path passes \<open>_testTypePath\<close>, \<open>getTypeByPath\<close> returns
  the inherited member, and the call of its \<open>validate\<close> throws a TypeError; nothing is
  reported and nothing written.
\<close>

theorem set_inherited_name_throws:
  assumes "s_type st = Some (Dictionary d (Some ts))"
    and "parsePath sel (pathSeparator st) = [key]"
    and "map_of ts key = None"
    and "key \<in> set Object_prototype_names"
  shows "Store_set stringify st sel (Patch v) = (Inl TypeError, st)"
  using assms by (simp add: Store_set_def candidate_def set_check_def Let_def)

text \<open>\<open>set("toString", 5)\<close> on the demo store after its first load.\<close>

theorem set_inherited_name_throws_witness:
  "Store_set JSON_stringify_h
     ((demo_store Map.empty)
        \<lparr>s_heap := [demo_default, demo_default], s_value := HRef 1, s_saveTimer := True\<rparr>)
     (Selector ''toString'') (Patch (HNum (Fin 5)))
   = (Inl TypeError,
      (demo_store Map.empty)
        \<lparr>s_heap := [demo_default, demo_default], s_value := HRef 1, s_saveTimer := True\<rparr>)"
proof -
  let ?st = "(demo_store Map.empty)
        \<lparr>s_heap := [demo_default, demo_default], s_value := HRef 1, s_saveTimer := True\<rparr>"
  have ty: "s_type ?st = Some (Dictionary (HRef 0) (Some demo_fields))"
    by (simp add: demo_store_def demo_type_eq)
  have pp: "parsePath (Selector ''toString'') (pathSeparator ?st) = [''toString'']"
    by (simp add: demo_store_def Store_defaults_def split_def)
  have m: "map_of demo_fields ''toString'' = None" by (simp add: demo_fields_def)
  have k: "''toString'' \<in> set Object_prototype_names" by (simp add: Object_prototype_names_def)
  show ?thesis by (rule set_inherited_name_throws[OF ty pp m k])
qed

text \<open>
  The value of a store can be the default value of its schema itself. On the demo store
  over a medium that holds \<open>5\<close>, \<open>load()\<close> finds the value invalid at the root and
  replaces it by \<open>type.defaultValue\<close>, the object at address 0 (the clone at address
  1 is not used). \<open>set("n", 5)\<close> then writes into that object: the default value of
  the schema, and of the store, has \<open>n\<close> 5 afterwards.
\<close>

theorem set_after_root_repair_writes_default:
  "load JSON_parse_h JSON_stringify_h (demo_store (Map.empty(''hstore-test'' \<mapsto> ''5''))) None
     = (Inr True,
        (demo_store (Map.empty(''hstore-test'' \<mapsto> ''5'')))
          \<lparr>s_heap := [demo_default, demo_default], s_value := HRef 0,
           s_oldSource := Some ''5'', s_saveTimer := True, calls := [OnInvalid [[]]]\<rparr>)
   \<and> defaultValue demo_type = HRef 0
   \<and> Store_set JSON_stringify_h
        ((demo_store (Map.empty(''hstore-test'' \<mapsto> ''5'')))
          \<lparr>s_heap := [demo_default, demo_default], s_value := HRef 0,
           s_oldSource := Some ''5'', s_saveTimer := True, calls := [OnInvalid [[]]]\<rparr>)
        (Selector ''n'') (Patch (HNum (Fin 5)))
      = (Inr True,
         (demo_store (Map.empty(''hstore-test'' \<mapsto> ''5'')))
          \<lparr>s_heap := [HObject [(''version'', HNum (Fin 1)), (''str'', HStr ''Hello, world!''),
                               (''n'', HNum (Fin 5))],
                      demo_default],
           s_value := HRef 0,
           s_oldSource := Some ''5'', s_saveTimer := True, calls := [OnInvalid [[]]]\<rparr>)
   \<and> getByPath [demo_default, demo_default] (defaultValue demo_type) [''n''] = Inr (HNum (Fin 0))
   \<and> getByPath [HObject [(''version'', HNum (Fin 1)), (''str'', HStr ''Hello, world!''),
                          (''n'', HNum (Fin 5))],
                 demo_default] (defaultValue demo_type) [''n''] = Inr (HNum (Fin 5))"
proof -
  let ?m = "Map.empty(''hstore-test'' \<mapsto> ''5'')"
  let ?h = "[demo_default, demo_default]"
  let ?st = "(demo_store ?m)
          \<lparr>s_heap := ?h, s_value := HRef 0,
           s_oldSource := Some ''5'', s_saveTimer := True, calls := [OnInvalid [[]]]\<rparr>"
  have p: "JSON_parse_h ''5'' ?h = Some (HNum (Fin 5), ?h)" by code_simp
  have v: "validate_h ?h demo_type (HNum (Fin 5)) = Inr (Invalid [[]])"
    by (simp add: demo_type_eq indexable_def createValidatingResult_def)
  have ty: "s_type (demo_store ?m) = Some demo_type"
    and src: "storage (demo_store ?m) (name (demo_store ?m)) = Some ''5''"
    by (simp_all add: demo_store_def Store_defaults_def)
  have l: "load JSON_parse_h JSON_stringify_h (demo_store ?m) None = (Inr True, ?st)"
    by (simp add: load_def demo_getDefaultValue ty src p v Let_def)
       (simp add: invalid_def load_commit_def save_later_def demo_store_def Store_defaults_def
          demo_type_eq)
  have d: "defaultValue demo_type = HRef 0" by (simp add: demo_type_eq)
  have s: "Store_set JSON_stringify_h ?st (Selector ''n'') (Patch (HNum (Fin 5)))
      = (Inr True,
         ?st\<lparr>s_heap := [HObject [(''version'', HNum (Fin 1)), (''str'', HStr ''Hello, world!''),
                               (''n'', HNum (Fin 5))], demo_default]\<rparr>)"
    by (simp add: Store_set_def candidate_def set_check_def demo_store_def Store_defaults_def
          demo_type_eq demo_fields_def split_def createValidatingResult_def num_ge_def
          indexable_def lookup_def save_later_def Let_def)
  have g0: "getByPath ?h (defaultValue demo_type) [''n''] = Inr (HNum (Fin 0))"
    by (simp add: d indexable_def lookup_def)
  have g1: "getByPath [HObject [(''version'', HNum (Fin 1)), (''str'', HStr ''Hello, world!''),
                          (''n'', HNum (Fin 5))], demo_default] (defaultValue demo_type) [''n'']
              = Inr (HNum (Fin 5))"
    by (simp add: d indexable_def lookup_def)
  show ?thesis
    unfolding l s by (intro conjI d g0 g1) simp_all
qed

lemma find_upt_prefix:
  "find P [0..<n] = Some i \<Longrightarrow> n \<le> m \<Longrightarrow> find P [0..<m] = Some i"
proof -
  assume f: "find P [0..<n] = Some i" and le: "n \<le> m"
  from f have i: "i < n" "P i" "\<forall>j<i. \<not> P j"
    by (auto simp: find_Some_iff)
  have "i < length [0..<m] \<and> P ([0..<m] ! i) \<and> i = [0..<m] ! i \<and> (\<forall>j<i. \<not> P ([0..<m] ! j))"
    using i le by simp
  then show ?thesis unfolding find_Some_iff by blast
qed

lemma hget_hput_other:
  assumes put: "hput h (HRef a) key v = Inr h'"
    and ne: "k \<noteq> key"
    and get: "hget h r k = Inr w"
    and ix: "indexable w"
  shows "hget h' r k = Inr w"
proof -
  from get obtain b where r: "r = HRef b" by (cases r) auto
  show ?thesis
  proof (cases "b = a")
    case False
    then have "lookup h' b = lookup h b" using hput_frame[OF put] by blast
    with get show ?thesis by (simp add: r)
  next
    case True
    from put obtain ob where lk: "lookup h a = Some ob" by (auto split: option.splits)
    then have a: "a < length h" by (auto simp: lookup_def split: if_splits)
    show ?thesis
    proof (cases ob)
      case (HObject kvs)
      with put lk have h': "h' = h[a := HObject (AList.update key v kvs)]"
        by (auto split: if_splits)
      have lk': "lookup h' a = Some (HObject (AList.update key v kvs))"
        unfolding h' using a by (simp add: lookup_def)
      from get lk HObject show ?thesis
        by (simp add: r True lk' update_conv' ne)
    next
      case (HArray xs)
      with put lk obtain i where
        f: "find (\<lambda>i. string_of_nat i = key) [0..<Suc (length xs)] = Some i" and
        h': "h' = h[a := HArray (if i < length xs then xs[i := v] else xs @ [v])]"
        by (auto split: option.splits)
      from f have key: "string_of_nat i = key" by (auto simp: find_Some_iff)
      let ?ys = "if i < length xs then xs[i := v] else xs @ [v]"
      have lk': "lookup h' a = Some (HArray ?ys)"
        unfolding h' using a by (simp add: lookup_def)
      have nl: "k \<noteq> ''length''"
        using get ix lk HArray by (auto simp: r True indexable_def)
      from get lk HArray nl obtain j where
        fj: "find (\<lambda>i. string_of_nat i = k) [0..<length xs] = Some j" and w: "w = xs ! j"
        using ix by (auto simp: r True indexable_def split: option.splits if_splits)
      from fj have j: "j < length xs" "string_of_nat j = k" by (auto simp: find_Some_iff)
      have ji: "j \<noteq> i" using j(2) key ne by auto
      have len: "length xs \<le> length ?ys" by simp
      have fj': "find (\<lambda>i. string_of_nat i = k) [0..<length ?ys] = Some j"
        by (rule find_upt_prefix[OF fj len])
      have "?ys ! j = xs ! j" using j(1) ji by (simp add: nth_append)
      with fj' w nl show ?thesis by (simp add: r True lk')
    qed
  qed
qed

lemma getByPath_hput:
  assumes put: "hput h (HRef a) key v = Inr h'"
  shows "key \<notin> set q \<Longrightarrow> getByPath h ob q = Inr r \<Longrightarrow> indexable r \<Longrightarrow>
           getByPath h' ob q = Inr r"
proof (induction q arbitrary: ob)
  case Nil
  then show ?case by simp
next
  case (Cons k q)
  from Cons.prems(2) obtain w where ix: "indexable ob" and g: "hget h ob k = Inr w"
    and rest: "getByPath h w q = Inr r"
    by (auto split: if_splits sum.splits)
  have iw: "indexable w"
  proof (cases q)
    case Nil
    with rest Cons.prems(3) show ?thesis by simp
  next
    case (Cons k2 q2)
    with rest show ?thesis by (auto split: if_splits)
  qed
  have ne: "k \<noteq> key" using Cons.prems(1) by auto
  have g': "hget h' ob k = Inr w" by (rule hget_hput_other[OF put ne g iw])
  have "getByPath h' w q = Inr r"
    by (rule Cons.IH) (use Cons.prems(1,3) rest in auto)
  with ix g' show ?case by simp
qed

lemma getByPath_append:
  "getByPath h ob (q @ [key]) =
     (case getByPath h ob q of
        Inl e \<Rightarrow> Inl e
      | Inr r \<Rightarrow> if indexable r then hget h r key else Inl (Throw INVALID_PATH))"
  by (induction q arbitrary: ob) (auto split: sum.splits)

lemma save_later_keeps:
  "save_later stringify st = (r, st') \<Longrightarrow>
     s_heap st' = s_heap st \<and> s_value st' = s_value st \<and> pathSeparator st' = pathSeparator st"
  by (auto simp: save_later_def save_def checkConflict_def conflict_def Let_def
           split: if_splits sum.splits prod.splits)

text \<open>
  Path get/set inverse: after a \<open>set\<close> that returned true on a store with a schema,
  \<open>get\<close> with the same selector returns the candidate value, for a selector that
  \<open>get\<close> does not take as missing and a path whose last key does not occur among the
  keys before it.
\<close>

theorem set_then_get:
  assumes "Store_set stringify st sel p = (Inr True, st')"
    and "s_type st = Some t"
    and "candidate st (parsePath sel (pathSeparator st)) p = (Inr v, h)"
    and "parsePath sel (pathSeparator st) = q @ [key]"
    and "key \<notin> set q"
    and "selector_truthy sel"
  shows "get st' (Some sel) = Inr v"
proof -
  let ?tp = "parsePath sel (pathSeparator st)"
  from assms(1,2,3) obtain h' where
    w: "setByPath h (s_value st) ?tp v = Inr h'" and
    sl: "save_later stringify (st\<lparr>s_heap := h'\<rparr>) = (None, st')"
    by (auto simp: Store_set_def Let_def invalid_def
             split: sum.splits option.splits if_splits prod.splits)
  from save_later_keeps[OF sl]
  have keep: "s_heap st' = h'" "s_value st' = s_value st" "pathSeparator st' = pathSeparator st"
    by simp_all
  from w[unfolded assms(4) setByPath_append] obtain r where
    g: "getByPath h (s_value st) q = Inr r" and ix: "indexable r" and
    put: "hput h r key v = Inr h'"
    by (auto split: sum.splits if_splits)
  from ix obtain a where r: "r = HRef a" unfolding indexable_iff by blast
  have g': "getByPath h' (s_value st) q = Inr r"
    by (rule getByPath_hput[OF put[unfolded r] assms(5) g ix])
  have "getByPath h' (s_value st) (q @ [key]) = Inr v"
    unfolding getByPath_append g' using ix hget_hput[OF put[unfolded r]] by (simp add: r)
  with keep assms(4,6) show ?thesis by (simp add: get_def)
qed

text \<open>
  \<open>set("n", 5)\<close> then \<open>get("n")\<close> on the demo store after its first load.
\<close>

theorem set_then_get_witness:
  "get (snd (Store_set JSON_stringify_h
               ((demo_store Map.empty)
                  \<lparr>s_heap := [demo_default, demo_default], s_value := HRef 1,
                   s_saveTimer := True\<rparr>)
               (Selector ''n'') (Patch (HNum (Fin 5)))))
       (Some (Selector ''n''))
     = Inr (HNum (Fin 5))"
proof -
  let ?st = "(demo_store Map.empty)
                  \<lparr>s_heap := [demo_default, demo_default], s_value := HRef 1,
                   s_saveTimer := True\<rparr>"
  have ty: "s_type ?st = Some demo_type" by (simp add: demo_store_def)
  have pp: "parsePath (Selector ''n'') (pathSeparator ?st) = [] @ [''n'']"
    by (simp add: demo_store_def Store_defaults_def split_def)
  have c: "candidate ?st (parsePath (Selector ''n'') (pathSeparator ?st)) (Patch (HNum (Fin 5)))
             = (Inr (HNum (Fin 5)), [demo_default, demo_default])"
    by (simp add: candidate_def)
  have nk: "''n'' \<notin> set []" by simp
  have tr: "selector_truthy (Selector ''n'')" by simp
  have ev: "fst (Store_set JSON_stringify_h ?st (Selector ''n'') (Patch (HNum (Fin 5)))) = Inr True"
    by (simp add: Store_set_def split_def candidate_def set_check_def demo_store_def
        Store_defaults_def demo_type_eq demo_fields_def
        createValidatingResult_def num_ge_def indexable_def lookup_def save_later_def Let_def)
  then have "Store_set JSON_stringify_h ?st (Selector ''n'') (Patch (HNum (Fin 5)))
               = (Inr True, snd (Store_set JSON_stringify_h ?st (Selector ''n'') (Patch (HNum (Fin 5)))))"
    by (metis prod.collapse)
  from set_then_get[OF this ty c pp nk tr] show ?thesis .
qed

lemma repr_entries_keys: "repr_entries h es kvs \<Longrightarrow> map fst es = map fst kvs"
  by (induction kvs arbitrary: es) (auto split: list.splits)

lemma repr_entries_map_of:
  "repr_entries h es kvs \<Longrightarrow>
     (case map_of kvs key of
        Some x \<Rightarrow> (\<exists>w. map_of es key = Some w \<and> repr h w x)
      | None \<Rightarrow> map_of es key = None)"
proof (induction kvs arbitrary: es)
  case Nil
  then show ?case by simp
next
  case (Cons e kvs)
  obtain k x where e: "e = (k, x)" by (cases e)
  from Cons.prems obtain w rest where es: "es = (k, w) # rest" and r: "repr h w x"
    and rr: "repr_entries h rest kvs"
    by (auto simp: e split: list.splits)
  show ?case
  proof (cases "k = key")
    case True
    with r show ?thesis by (simp add: e es)
  next
    case False
    then have "map_of es key = map_of rest key" by (simp add: es)
    with Cons.IH[OF rr] False show ?thesis by (simp add: e split: option.splits)
  qed
qed

lemma repr_list_nth:
  "repr_list h ws xs \<Longrightarrow> length ws = length xs \<and> (\<forall>i < length xs. repr h (ws ! i) (xs ! i))"
proof (induction xs arbitrary: ws)
  case Nil
  then show ?case by simp
next
  case (Cons x xs)
  then obtain w rest where ws: "ws = w # rest" and r: "repr h w x" "repr_list h rest xs"
    by (auto split: list.splits)
  from Cons.IH[OF r(2)] r(1) show ?case
    by (auto simp: ws nth_Cons split: nat.splits)
qed

lemma repr_indexable:
  "repr h v c \<Longrightarrow> indexable v = (truthy c \<and> typeof c = ''object'')"
  by (cases c) (auto simp: indexable_def split: hval.splits)

lemma repr_keys:
  "repr h v c \<Longrightarrow> truthy c \<and> typeof c = ''object'' \<Longrightarrow> hkeys h v = Inr (Object_keys c)"
  by (cases c)
     (auto simp: hkeys_def repr_entries_keys dest: repr_list_nth
           split: hval.splits option.splits hobj.splits)

lemma repr_get:
  assumes "repr h v c" and "truthy c \<and> typeof c = ''object''" and "key \<notin> set inherited_names"
  shows "\<exists>w. hget h v key = Inr w \<and> repr h w (js_get c key)"
proof (cases c)
  case (Obj kvs)
  with assms(1) obtain a es where v: "v = HRef a" and lk: "lookup h a = Some (HObject es)"
    and re: "repr_entries h es kvs"
    by (auto split: hval.splits option.splits hobj.splits)
  have np: "key \<notin> set Object_prototype_names" using assms(3) by (simp add: inherited_names_def)
  show ?thesis
    using repr_entries_map_of[OF re, of key] np
    by (auto simp: v lk Obj split: option.splits)
next
  case (Arr xs)
  with assms(1) obtain a ws where v: "v = HRef a" and lk: "lookup h a = Some (HArray ws)"
    and rl: "repr_list h ws xs"
    by (auto split: hval.splits option.splits hobj.splits)
  from repr_list_nth[OF rl] have len: "length ws = length xs"
    and nth: "\<And>i. i < length xs \<Longrightarrow> repr h (ws ! i) (xs ! i)" by auto
  show ?thesis
  proof (cases "key = ''length''")
    case True
    then show ?thesis by (simp add: v lk Arr len)
  next
    case False
    show ?thesis
    proof (cases "find (\<lambda>i. string_of_nat i = key) [0..<length xs]")
      case None
      with False assms(3) show ?thesis by (simp add: v lk Arr len)
    next
      case (Some i)
      then have "i < length xs" by (auto simp: find_Some_iff)
      with Some False nth[of i] show ?thesis by (simp add: v lk Arr len)
    qed
  qed
qed (use assms(2) in auto)

lemma validate_h_repr:
  "plain_type (t :: 'v Type) \<Longrightarrow> repr h v c \<Longrightarrow> validate_h h t v = Inr (validate t c)"
  "plain_fields (ts :: (string \<times> 'v Type) list) \<Longrightarrow> repr h v c \<Longrightarrow> truthy c \<and> typeof c = ''object'' \<Longrightarrow>
     validate_h_entries h ts v = Inr (validate_entries ts c)"
  "plain_type t \<Longrightarrow> repr_list h ws xs \<Longrightarrow> validate_h_every h t ws = Inr (validate_every t xs)"
  "plain_types (us :: 'v Type list) \<Longrightarrow> repr h v c \<Longrightarrow> validate_h_some h us v = Inr (validate_some us c)"
proof (induction t c and ts c and t xs and us c arbitrary: v and v and ws and v
       rule: validate_validate_entries_validate_every_validate_some.induct)
  case (1 d c)
  then show ?case by simp
next
  case (2 d c)
  then show ?case by (cases c) (auto split: hval.splits)
next
  case (3 d mnl mxl pat c)
  then show ?case by (cases c) (auto split: hval.splits)
next
  case (4 d mn mx int_only c)
  then show ?case by (cases c) (auto split: hval.splits)
next
  case (5 d this_null this_undefined c)
  then show ?case by (cases c) (auto split: hval.splits)
next
  case (6 d tys c)
  note ix = repr_indexable[OF "6.prems"(2)]
  show ?case
  proof (cases "truthy c \<and> typeof c = ''object''")
    case False
    then have "\<not> indexable v" using ix by simp
    with False show ?thesis by auto
  next
    case True
    show ?thesis
    proof (cases tys)
      case None
      with True ix show ?thesis by simp
    next
      case (Some ts)
      have pf: "plain_fields ts" using "6.prems"(1) Some by simp
      have e: "validate_h_entries h ts v = Inr (validate_entries ts c)"
        by (rule "6.IH"[OF True Some pf "6.prems"(2) True])
      have k: "hkeys h v = Inr (Object_keys c)" by (rule repr_keys[OF "6.prems"(2) True])
      show ?thesis using True ix by (simp add: Some e k Let_def)
    qed
  qed
next
  case (7 d t c)
  show ?case
  proof (cases c)
    case (Arr xs)
    with "7.prems"(2) obtain a ws where v: "v = HRef a" and lk: "lookup h a = Some (HArray ws)"
      and rl: "repr_list h ws xs"
      by (auto split: hval.splits option.splits hobj.splits)
    have pt: "plain_type t" using "7.prems"(1) by simp
    have "validate_h_every h t ws = Inr (validate_every t xs)"
      by (rule "7.IH"[OF Arr pt rl])
    then show ?thesis by (simp add: v lk Arr)
  qed (use "7.prems"(2) in \<open>auto split: hval.splits option.splits hobj.splits\<close>)
next
  case (8 d ts c)
  have "validate_h_some h ts v = Inr (validate_some ts c)"
    by (rule "8.IH") (use "8.prems" in auto)
  then show ?case by simp
next
  case (9 c)
  then show ?case by simp
next
  case (10 key t rest c)
  from "10.prems"(1) have kp: "key \<notin> set inherited_names" and pt: "plain_type t"
    and pr: "plain_fields rest" by simp_all
  from repr_get[OF "10.prems"(2,3) kp] obtain w where
    g: "hget h v key = Inr w" and rw: "repr h w (js_get c key)" by blast
  have a: "validate_h h t w = Inr (validate t (js_get c key))"
    by (rule "10.IH"(1)[OF pt rw])
  have b: "validate_h_entries h rest v = Inr (validate_entries rest c)"
    by (rule "10.IH"(2)[OF pr "10.prems"(2,3)])
  show ?case by (simp add: g a b)
next
  case (11 t)
  then show ?case by simp
next
  case (12 t element rest)
  from "12.prems"(2) obtain w ws' where ws: "ws = w # ws'" and r: "repr h w element"
    "repr_list h ws' rest"
    by (auto split: list.splits)
  have pt: "plain_type t" using "12.prems"(1) .
  have a: "validate_h h t w = Inr (validate t element)" by (rule "12.IH"(1)[OF pt r(1)])
  have b: "validate_h_every h t ws' = Inr (validate_every t rest)"
    by (rule "12.IH"(2)[OF pt r(2)])
  show ?case by (simp add: ws a b)
next
  case (13 c)
  then show ?case by simp
next
  case (14 option rest c)
  from "14.prems"(1) have po: "plain_type option" and pr: "plain_types rest" by simp_all
  have a: "validate_h h option v = Inr (validate option c)"
    by (rule "14.IH"(1)[OF po "14.prems"(2)])
  have b: "validate_h_some h rest v = Inr (validate_some rest c)"
    by (rule "14.IH"(2)[OF pr "14.prems"(2)])
  show ?case by (simp add: a b)
qed

lemma alloc_extends:
  "alloc c h = (v, h') \<Longrightarrow> \<exists>ext. h' = h @ ext"
  "alloc_list xs h = (ws, h') \<Longrightarrow> \<exists>ext. h' = h @ ext"
  "alloc_entries kvs h = (es, h') \<Longrightarrow> \<exists>ext. h' = h @ ext"
proof (induction c h and xs h and kvs h arbitrary: v h' and ws h' and es h'
       rule: alloc_alloc_list_alloc_entries.induct)
  case (6 xs h)
  obtain ws h1 where a: "alloc_list xs h = (ws, h1)" by (cases "alloc_list xs h")
  from "6.IH"[OF a] "6.prems" a show ?case by auto
next
  case (7 kvs h)
  obtain es h1 where a: "alloc_entries kvs h = (es, h1)" by (cases "alloc_entries kvs h")
  from "7.IH"[OF a] "7.prems" a show ?case by auto
next
  case (9 x xs h)
  obtain w h1 where a: "alloc x h = (w, h1)" by (cases "alloc x h")
  obtain ws' h2 where b: "alloc_list xs h1 = (ws', h2)" by (cases "alloc_list xs h1")
  from "9.IH"(1)[OF a] "9.IH"(2)[OF a[symmetric] b] "9.prems" a b show ?case by auto
next
  case (11 key x kvs h)
  obtain w h1 where a: "alloc x h = (w, h1)" by (cases "alloc x h")
  obtain es' h2 where b: "alloc_entries kvs h1 = (es', h2)" by (cases "alloc_entries kvs h1")
  from "11.IH"(1)[OF a] "11.IH"(2)[OF a[symmetric] b] "11.prems" a b show ?case by auto
qed auto

lemma repr_mono:
  "repr h v c \<Longrightarrow> repr (h @ ext) v c"
  "repr_list h ws xs \<Longrightarrow> repr_list (h @ ext) ws xs"
  "repr_entries h es kvs \<Longrightarrow> repr_entries (h @ ext) es kvs"
proof (induction h v c and h ws xs and h es kvs rule: repr_repr_list_repr_entries.induct)
  case (6 h v xs)
  then show ?case
    by (auto simp: lookup_def nth_append split: hval.splits option.splits hobj.splits if_splits)
next
  case (7 h v kvs)
  then show ?case
    by (auto simp: lookup_def nth_append split: hval.splits option.splits hobj.splits if_splits)
next
  case (9 h ws x xs)
  then show ?case by (auto split: list.splits)
next
  case (11 h es key x kvs)
  then show ?case by (auto split: list.splits)
qed auto

lemma alloc_repr:
  "alloc c h = (v, h') \<Longrightarrow> repr h' v c"
  "alloc_list xs h = (ws, h') \<Longrightarrow> repr_list h' ws xs"
  "alloc_entries kvs h = (es, h') \<Longrightarrow> repr_entries h' es kvs"
proof (induction c h and xs h and kvs h arbitrary: v h' and ws h' and es h'
       rule: alloc_alloc_list_alloc_entries.induct)
  case (6 xs h)
  obtain ws h1 where a: "alloc_list xs h = (ws, h1)" by (cases "alloc_list xs h")
  from "6.prems" a have v: "v = HRef (length h1)" and h': "h' = h1 @ [HArray ws]" by auto
  have "repr_list h' ws xs" unfolding h' by (rule repr_mono(2)[OF "6.IH"[OF a]])
  then show ?case by (simp add: v h' lookup_def)
next
  case (7 kvs h)
  obtain es h1 where a: "alloc_entries kvs h = (es, h1)" by (cases "alloc_entries kvs h")
  from "7.prems" a have v: "v = HRef (length h1)" and h': "h' = h1 @ [HObject es]" by auto
  have "repr_entries h' es kvs" unfolding h' by (rule repr_mono(3)[OF "7.IH"[OF a]])
  then show ?case by (simp add: v h' lookup_def)
next
  case (9 x xs h)
  obtain w h1 where a: "alloc x h = (w, h1)" by (cases "alloc x h")
  obtain ws' h2 where b: "alloc_list xs h1 = (ws', h2)" by (cases "alloc_list xs h1")
  from "9.prems" a b have ws: "ws = w # ws'" and h': "h' = h2" by auto
  from alloc_extends(2)[OF b] obtain ext where e: "h2 = h1 @ ext" by blast
  have "repr h2 w x" unfolding e by (rule repr_mono(1)[OF "9.IH"(1)[OF a]])
  moreover have "repr_list h2 ws' xs" by (rule "9.IH"(2)[OF a[symmetric] b])
  ultimately show ?case by (simp add: ws h')
next
  case (11 key x kvs h)
  obtain w h1 where a: "alloc x h = (w, h1)" by (cases "alloc x h")
  obtain es' h2 where b: "alloc_entries kvs h1 = (es', h2)" by (cases "alloc_entries kvs h1")
  from "11.prems" a b have es: "es = (key, w) # es'" and h': "h' = h2" by auto
  from alloc_extends(3)[OF b] obtain ext where e: "h2 = h1 @ ext" by blast
  have "repr h2 w x" unfolding e by (rule repr_mono(1)[OF "11.IH"(1)[OF a]])
  moreover have "repr_entries h2 es' kvs" by (rule "11.IH"(2)[OF a[symmetric] b])
  ultimately show ?case by (simp add: es h')
qed auto

text \<open>
  \<open>validate\<close> on the heap and \<open>validate\<close> on a value given by its content agree: when
  the value \<open>v\<close> of the heap has the content \<open>c\<close> and the schema is plain,
  \<open>validate_h\<close> on \<open>v\<close> returns what \<open>validate\<close> returns on \<open>c\<close>. In particular
  on the value that \<open>JSON_parse_h\<close> builds from a parsed content.
\<close>

theorem validate_h_content:
  assumes "plain_type t"
  shows "(repr h v c \<longrightarrow> validate_h h t v = Inr (validate t c))
         \<and> (\<forall>h0. alloc c h0 = (v, h) \<longrightarrow> validate_h h t v = Inr (validate t c))"
  using validate_h_repr(1)[OF assms] alloc_repr(1) by blast

text \<open>
  The object \<open>{n: "x", foo: null}\<close> on the heap and by its content, against the
  schema with the one number field \<open>n\<close>.
\<close>

theorem validate_h_content_witness:
  "validate_h [HObject [(''n'', HStr ''x''), (''foo'', HNull)]]
     (Dictionary (HRef 0) (Some [(''n'', Number (HNum (Fin 0)) NegInf PosInf False)])) (HRef 0)
     = Inr (validate
              (Dictionary (HRef 0) (Some [(''n'', Number (HNum (Fin 0)) NegInf PosInf False)]))
              (Obj [(''n'', Str ''x''), (''foo'', Null)]))
   \<and> validate
        (Dictionary (HRef 0) (Some [(''n'', Number (HNum (Fin 0)) NegInf PosInf False)]))
        (Obj [(''n'', Str ''x''), (''foo'', Null)])
     = Invalid [[''foo''], [''n'']]
   \<and> alloc (Obj [(''n'', Str ''x''), (''foo'', Null)]) []
     = (HRef 0, [HObject [(''n'', HStr ''x''), (''foo'', HNull)]])"
proof -
  let ?t = "Dictionary (HRef 0) (Some [(''n'', Number (HNum (Fin 0)) NegInf PosInf False)])"
  let ?h = "[HObject [(''n'', HStr ''x''), (''foo'', HNull)]]"
  let ?c = "Obj [(''n'', Str ''x''), (''foo'', Null)]"
  have pl: "plain_type ?t"
    by (simp add: inherited_names_def Object_prototype_names_def Array_prototype_names_def)
  have a: "alloc ?c [] = (HRef 0, ?h)" by simp
  have v: "validate ?t ?c = Invalid [[''foo''], [''n'']]"
    by (simp add: createValidatingResult_def key_in_def Object_prototype_names_def)
  from validate_h_content[OF pl, THEN conjunct2, THEN spec, THEN mp, OF a]
  show ?thesis using v a by simp
qed

end
